theory Spec2Isabelle
  imports Complex_Main "HOL-Library.Sublist"
begin

unbundle bit_operations_syntax

section \<open>Data model\<close>

text \<open>
  The fingerprint correlation engine of \<^verbatim>\<open>correlation.py\<close>.

  A fingerprint is a Python list of integers, here \<open>int list\<close> (Python integers are
  unbounded). A similarity score is a Python float; the model computes with exact rationals
  (\<open>rat\<close>), so it says nothing about rounding. A score that is absent (Python's \<^verbatim>\<open>None\<close>) is
  \<open>None :: rat option\<close>. Every \<^verbatim>\<open>raise\<close> of the source, and every exception that the
  interpreter or numpy raises on the modelled paths, is a value of type \<open>error\<close>, returned
  as \<open>Inl\<close>.
\<close>

datatype error =
    Exception string  \<comment> \<open>\<^verbatim>\<open>raise Exception(msg)\<close>\<close>
  | TypeError         \<comment> \<open>an operator applied to \<^verbatim>\<open>None\<close>\<close>
  | IndexError        \<comment> \<open>a list read out of range\<close>
  | ArangeError       \<comment> \<open>\<^verbatim>\<open>numpy.arange\<close> called with step 0\<close>
  | ExternalError string  \<comment> \<open>an uncaught failure of reading a reference file\<close>

type_synonym fingerprint = "int list"
type_synonym score = "rat option"

text \<open>The module's global parameters.\<close>

definition sample_time :: int where "sample_time = 500"
definition span_global :: int where "span_global = 150"
definition step_global :: int where "step_global = 1"
definition min_overlap :: int where "min_overlap = 20"

section \<open>Library functions the source calls\<close>

text \<open>
  Python's \<^verbatim>\<open>bin(n)\<close>: the binary numeral of \<open>n\<close>, prefixed by \<^verbatim>\<open>0b\<close>, and by a minus sign
  when \<open>n\<close> is negative (the digits are then those of the magnitude).
\<close>

fun bin_digits :: "nat \<Rightarrow> string" where
  "bin_digits n =
     (if n < 2 then [if n = 0 then CHR ''0'' else CHR ''1'']
      else bin_digits (n div 2) @ [if n mod 2 = 0 then CHR ''0'' else CHR ''1''])"

declare bin_digits.simps [simp del]

definition bin :: "int \<Rightarrow> string" where
  "bin n = (if n < 0 then ''-0b'' else ''0b'') @ bin_digits (nat \<bar>n\<bar>)"

text \<open>\<^verbatim>\<open>s.count(c)\<close> for a pattern of one character.\<close>

definition count_char :: "string \<Rightarrow> char \<Rightarrow> nat" where
  "count_char s c = length (filter (\<lambda>d. d = c) s)"

text \<open>The decimal numeral that \<^verbatim>\<open>'%i' % n\<close> prints.\<close>

fun dec_digits :: "nat \<Rightarrow> string" where
  "dec_digits n =
     (if n < 10 then [char_of (48 + n)]
      else dec_digits (n div 10) @ [char_of (48 + n mod 10)])"

declare dec_digits.simps [simp del]

definition format_i :: "int \<Rightarrow> string" where
  "format_i n = (if n < 0 then ''-'' else []) @ dec_digits (nat \<bar>n\<bar>)"

text \<open>
  \<^verbatim>\<open>numpy.arange(start, stop, step)\<close> on integers: the values \<open>start + k * step\<close> for
  \<open>k = 0, \<dots>, \<lceil>(stop - start) / step\<rceil> - 1\<close>, none when that bound is not positive;
  it raises when \<open>step\<close> is 0.
\<close>

definition arange :: "int \<Rightarrow> int \<Rightarrow> int \<Rightarrow> error + int list" where
  "arange start stop step' =
     (if step' = 0 then Inl ArangeError
      else Inr (map (\<lambda>k. start + int k * step') [0..<nat (- ((start - stop) div step'))]))"

text \<open>Python's \<^verbatim>\<open>range(start, stop, step)\<close> for a positive step.\<close>

definition py_range :: "int \<Rightarrow> int \<Rightarrow> int \<Rightarrow> int list" where
  "py_range start stop step' =
     map (\<lambda>k. start + int k * step') [0..<nat (- ((start - stop) div step'))]"

text \<open>
  \<^verbatim>\<open>s.replace(old, new)\<close> for a non-empty \<open>old\<close>: every occurrence, leftmost first, without
  overlap.
\<close>

function replace :: "string \<Rightarrow> string \<Rightarrow> string \<Rightarrow> string" where
  "replace s old new =
     (if s = [] \<or> old = [] then s
      else if prefix old s then new @ replace (drop (length old) s) old new
      else hd s # replace (tl s) old new)"
  by pat_completeness auto
termination
  by (relation "measure (\<lambda>(s, old, new). length s)") (auto simp: neq_Nil_conv)

declare replace.simps [simp del]

section \<open>The similarity of two fingerprints\<close>

text \<open>
  \<^verbatim>\<open>for i in range(len(listx)): covariance += 32 - bin(listx[i] ^ listy[i]).count("1")\<close>.
  The caller has cut both lists to one length, so \<open>listy ! i\<close> is in range.
\<close>

function covariance_loop :: "fingerprint \<Rightarrow> fingerprint \<Rightarrow> nat \<Rightarrow> int \<Rightarrow> int" where
  "covariance_loop listx listy i covariance =
     (if i < length listx
      then covariance_loop listx listy (i + 1)
             (covariance + (32 - int (count_char (bin (listx ! i XOR listy ! i)) CHR ''1'')))
      else covariance)"
  by pat_completeness auto
termination
  by (relation "measure (\<lambda>(listx, listy, i, covariance). length listx - i)") auto

declare covariance_loop.simps [simp del]

definition correlation :: "fingerprint \<Rightarrow> fingerprint \<Rightarrow> error + rat" where
  "correlation listx listy =
     (if length listx = 0 \<or> length listy = 0
      then Inl (Exception ''Empty lists cannot be correlated.'')
      else
        let listx' = (if length listx > length listy then take (length listy) listx else listx);
            listy' = (if length listx > length listy then listy
                      else if length listx < length listy then take (length listx) listy
                      else listy);
            covariance = covariance_loop listx' listy' 0 0
        in Inr (of_int covariance / of_nat (length listx') / 32))"

section \<open>Cross correlation\<close>

definition cross_correlation :: "fingerprint \<Rightarrow> fingerprint \<Rightarrow> int \<Rightarrow> error + score" where
  "cross_correlation listx listy offset =
     (let (listx', listy') =
            (if offset > 0
             then (let lx = drop (nat offset) listx in (lx, take (length lx) listy))
             else if offset < 0
             then (let ly = drop (nat (- offset)) listy in (take (length ly) listx, ly))
             else (listx, listy))
      in if min (int (length listx')) (int (length listy')) < min_overlap then Inr None
         else (case correlation listx' listy' of Inl e \<Rightarrow> Inl e | Inr c \<Rightarrow> Inr (Some c)))"

text \<open>The loop of \<^verbatim>\<open>compare\<close> over the offsets, appending to \<^verbatim>\<open>corr_xy\<close>.\<close>

fun compare_loop ::
  "fingerprint \<Rightarrow> fingerprint \<Rightarrow> int list \<Rightarrow> score list \<Rightarrow> error + score list" where
  "compare_loop listx listy [] corr_xy = Inr corr_xy"
| "compare_loop listx listy (offset # rest) corr_xy =
     (case cross_correlation listx listy offset of
        Inl e \<Rightarrow> Inl e
      | Inr c \<Rightarrow> compare_loop listx listy rest (corr_xy @ [c]))"

definition span_message :: "int \<Rightarrow> int \<Rightarrow> string" where
  "span_message span' limit =
     ''span >= sample size: '' @ format_i span' @ '' >= '' @ format_i limit @ [CHR 0x0A]
       @ ''Reduce span, reduce crop or increase sample_time.''"

definition compare :: "fingerprint \<Rightarrow> fingerprint \<Rightarrow> int \<Rightarrow> int \<Rightarrow> error + score list" where
  "compare listx listy span' step' =
     (if span' > min (int (length listx)) (int (length listy))
      then Inl (Exception (span_message span' (min (int (length listx)) (int (length listy)))))
      else (case arange (- span') (span' + 1) step' of
              Inl e \<Rightarrow> Inl e
            | Inr offsets \<Rightarrow> compare_loop listx listy offsets []))"

section \<open>The best offset\<close>

text \<open>
  \<^verbatim>\<open>max_index\<close>: \<^verbatim>\<open>listx[0]\<close> raises on an empty list, and \<^verbatim>\<open>value > max_value\<close> raises
  when either side is \<^verbatim>\<open>None\<close>.
\<close>

fun max_index_loop :: "(nat \<times> score) list \<Rightarrow> nat \<Rightarrow> score \<Rightarrow> error + nat" where
  "max_index_loop [] max_index max_value = Inr max_index"
| "max_index_loop ((i, value) # rest) max_index max_value =
     (case (value, max_value) of
        (Some v, Some m) \<Rightarrow>
          if v > m then max_index_loop rest i value
          else max_index_loop rest max_index max_value
      | _ \<Rightarrow> Inl TypeError)"

definition max_index :: "score list \<Rightarrow> error + nat" where
  "max_index listx =
     (case listx of
        [] \<Rightarrow> Inl IndexError
      | x # _ \<Rightarrow> max_index_loop (enumerate 0 listx) 0 x)"

text \<open>
  \<^verbatim>\<open>get_max_corr\<close> reads the module's globals \<^verbatim>\<open>span\<close> and \<^verbatim>\<open>step\<close>; its parameter
  \<^verbatim>\<open>threshold\<close> is never read and is left out.
\<close>

definition get_max_corr :: "score list \<Rightarrow> error + (nat \<times> int)" where
  "get_max_corr corr =
     (case max_index corr of
        Inl e \<Rightarrow> Inl e
      | Inr max_corr_index \<Rightarrow>
          Inr (max_corr_index, - span_global + int max_corr_index * step_global))"

section \<open>The match decision\<close>

text \<open>
  The comprehension \<^verbatim>\<open>[(c, o) for c, o in corr_scores if c >= threshold]\<close>; the comparison
  raises on \<^verbatim>\<open>None\<close>.
\<close>

fun high_corrs_of :: "(score \<times> int) list \<Rightarrow> rat \<Rightarrow> error + (rat \<times> int) list" where
  "high_corrs_of [] threshold = Inr []"
| "high_corrs_of ((c, ofs) # rest) threshold =
     (case c of
        None \<Rightarrow> Inl TypeError
      | Some v \<Rightarrow>
          (case high_corrs_of rest threshold of
             Inl e \<Rightarrow> Inl e
           | Inr hs \<Rightarrow> Inr (if v \<ge> threshold then (v, ofs) # hs else hs)))"

text \<open>
  The inner loop \<^verbatim>\<open>for j in range(i + 1, len(offsets))\<close> with its \<^verbatim>\<open>break\<close>. The cluster
  starts as \<^verbatim>\<open>[offsets[i]]\<close> and only grows, so \<^verbatim>\<open>cluster[0]\<close> is \<open>hd cluster\<close>.
\<close>

function cluster_loop :: "int list \<Rightarrow> int \<Rightarrow> nat \<Rightarrow> int list \<Rightarrow> int list" where
  "cluster_loop offsets max_offset_deviation j cluster =
     (if j < length offsets
      then (if offsets ! j - hd cluster \<le> max_offset_deviation
            then cluster_loop offsets max_offset_deviation (j + 1) (cluster @ [offsets ! j])
            else cluster)
      else cluster)"
  by pat_completeness auto
termination
  by (relation "measure (\<lambda>(offsets, d, j, cluster). length offsets - j)") auto

declare cluster_loop.simps [simp del]

text \<open>The outer loop \<^verbatim>\<open>for i in range(len(offsets))\<close> with its early \<^verbatim>\<open>return True\<close>.\<close>

function match_loop :: "int list \<Rightarrow> int \<Rightarrow> int \<Rightarrow> nat \<Rightarrow> bool" where
  "match_loop offsets min_consistent_offsets max_offset_deviation i =
     (if i < length offsets
      then (let cluster = cluster_loop offsets max_offset_deviation (i + 1) [offsets ! i]
            in if int (length cluster) \<ge> min_consistent_offsets then True
               else match_loop offsets min_consistent_offsets max_offset_deviation (i + 1))
      else False)"
  by pat_completeness auto
termination
  by (relation "measure (\<lambda>(offsets, m, d, i). length offsets - i)") auto

declare match_loop.simps [simp del]

definition is_match :: "(score \<times> int) list \<Rightarrow> rat \<Rightarrow> int \<Rightarrow> int \<Rightarrow> error + bool" where
  "is_match corr_scores threshold min_consistent_offsets max_offset_deviation =
     (case high_corrs_of corr_scores threshold of
        Inl e \<Rightarrow> Inl e
      | Inr high_corrs \<Rightarrow>
          if int (length high_corrs) < min_consistent_offsets then Inr False
          else
            let sorted_corrs = sort_key snd high_corrs;
                offsets = map snd sorted_corrs
            in Inr (match_loop offsets min_consistent_offsets max_offset_deviation 0))"

section \<open>The scan\<close>

text \<open>
  \<^verbatim>\<open>correlate\<close> calls ffprobe, ffmpeg and fpcalc and reads the reference files. The model
  takes their results as parameters: \<open>calculate_fingerprint offset\<close> is the outcome of
  \<^verbatim>\<open>calculate_fingerprint(source_file, offset, duration=window)\<close>, \<open>get_fingerprint path\<close>
  that of \<^verbatim>\<open>get_fingerprint(path)\<close>, \<open>duration\<close> the value of \<^verbatim>\<open>get_audio_duration\<close>
  and \<open>fingerprints\<close> the paths that \<^verbatim>\<open>get_fingerprints\<close> lists. A failure of one of the
  two functions is \<open>Inl\<close> of its message. What the source prints is not modelled. A found
  song is the triple of name, correlation in percent and window offset.
\<close>

type_synonym found_song = "string \<times> rat \<times> int"

definition song_name :: "string \<Rightarrow> string \<Rightarrow> string" where
  "song_name fingerprints_dir short_clip_fp_path =
     replace (replace short_clip_fp_path (fingerprints_dir @ ''/'') []) ''.fpcalc'' []"

text \<open>
  The body of the loop over the reference fingerprints for one pair that is not skipped:
  the local \<^verbatim>\<open>step\<close> is 10, the threshold 0.60.
\<close>

definition span_to_use_of :: "fingerprint \<Rightarrow> fingerprint \<Rightarrow> int" where
  "span_to_use_of source_fingerprint short_fingerprint =
     min span_global
       (min (int (length source_fingerprint)) (int (length short_fingerprint)) - 1)"

definition match_pair ::
  "string \<Rightarrow> string \<Rightarrow> int \<Rightarrow> fingerprint \<Rightarrow> fingerprint \<Rightarrow> int \<Rightarrow>
     found_song list \<Rightarrow> error + found_song list" where
  "match_pair fingerprints_dir short_clip_fp_path offset source_fingerprint short_fingerprint
     span_to_use found_songs =
     (case compare source_fingerprint short_fingerprint span_to_use 10 of
        Inl e \<Rightarrow> Inl e
      | Inr corr \<Rightarrow>
     (case arange (- span_to_use) (span_to_use + 1) 10 of
        Inl e \<Rightarrow> Inl e
      | Inr offsets \<Rightarrow>
     (case is_match (zip corr offsets) (3 / 5) 1 5 of
        Inl e \<Rightarrow> Inl e
      | Inr False \<Rightarrow> Inr found_songs
      | Inr True \<Rightarrow>
     (case get_max_corr corr of
        Inl e \<Rightarrow> Inl e
      | Inr (max_corr_index, max_corr_offset) \<Rightarrow>
          if max_corr_index < length corr
          then (case corr ! max_corr_index of
                  None \<Rightarrow> Inl TypeError
                | Some c \<Rightarrow>
                    Inr (found_songs @
                      [(song_name fingerprints_dir short_clip_fp_path, c * 100, offset)]))
          else Inl IndexError))))"

fun references_loop ::
  "(string \<Rightarrow> string + fingerprint) \<Rightarrow> string \<Rightarrow> int \<Rightarrow> fingerprint \<Rightarrow> string list \<Rightarrow>
     found_song list \<Rightarrow> error + found_song list" where
  "references_loop get_fingerprint fingerprints_dir offset source_fingerprint [] found_songs =
     Inr found_songs"
| "references_loop get_fingerprint fingerprints_dir offset source_fingerprint
     (short_clip_fp_path # rest) found_songs =
     (case get_fingerprint short_clip_fp_path of
        Inl msg \<Rightarrow> Inl (ExternalError msg)
      | Inr short_fingerprint \<Rightarrow>
          if length short_fingerprint = 0 \<or> length source_fingerprint = 0
          then references_loop get_fingerprint fingerprints_dir offset source_fingerprint
                 rest found_songs
          else
            let span_to_use = span_to_use_of source_fingerprint short_fingerprint
            in if span_to_use < min_overlap
               then references_loop get_fingerprint fingerprints_dir offset source_fingerprint
                      rest found_songs
               else (case match_pair fingerprints_dir short_clip_fp_path offset
                            source_fingerprint short_fingerprint span_to_use found_songs of
                       Inl e \<Rightarrow> Inl e
                     | Inr found_songs' \<Rightarrow>
                         references_loop get_fingerprint fingerprints_dir offset
                           source_fingerprint rest found_songs'))"

text \<open>
  The loop over the window offsets. A failure of \<^verbatim>\<open>calculate_fingerprint\<close> is caught
  (\<^verbatim>\<open>except Exception\<close>, then \<^verbatim>\<open>continue\<close>); nothing else is inside the \<^verbatim>\<open>try\<close>.
\<close>

fun windows_loop ::
  "(int \<Rightarrow> string + fingerprint) \<Rightarrow> (string \<Rightarrow> string + fingerprint) \<Rightarrow> string \<Rightarrow>
     string list \<Rightarrow> int list \<Rightarrow> found_song list \<Rightarrow> error + found_song list" where
  "windows_loop calculate_fingerprint get_fingerprint fingerprints_dir fingerprints []
     found_songs = Inr found_songs"
| "windows_loop calculate_fingerprint get_fingerprint fingerprints_dir fingerprints
     (offset # rest) found_songs =
     (case calculate_fingerprint offset of
        Inl msg \<Rightarrow>
          windows_loop calculate_fingerprint get_fingerprint fingerprints_dir fingerprints
            rest found_songs
      | Inr source_fingerprint \<Rightarrow>
          (case references_loop get_fingerprint fingerprints_dir offset source_fingerprint
                  fingerprints found_songs of
             Inl e \<Rightarrow> Inl e
           | Inr found_songs' \<Rightarrow>
               windows_loop calculate_fingerprint get_fingerprint fingerprints_dir
                 fingerprints rest found_songs'))"

definition correlate ::
  "(int \<Rightarrow> string + fingerprint) \<Rightarrow> (string \<Rightarrow> string + fingerprint) \<Rightarrow> int \<Rightarrow> string \<Rightarrow>
     string list \<Rightarrow> error + found_song list" where
  "correlate calculate_fingerprint get_fingerprint duration fingerprints_dir fingerprints =
     windows_loop calculate_fingerprint get_fingerprint fingerprints_dir fingerprints
       (py_range 0 (duration - sample_time + 1) 10) []"

section \<open>What the specification says\<close>

text \<open>
  The match decision in the specification's words: keep the pairs whose score reaches the
  threshold, answer no when too few remain, sort them by offset, and look for a starting
  index whose cluster is large enough. The cluster of index \<open>i\<close> is \<open>offsets ! i\<close> (the
  anchor) followed by the longest run of the entries after it that lie within
  \<open>max_offset_deviation\<close> of the anchor.
\<close>

definition cluster_at :: "int list \<Rightarrow> int \<Rightarrow> nat \<Rightarrow> int list" where
  "cluster_at offsets max_offset_deviation i =
     offsets ! i #
       takeWhile (\<lambda>x. x - offsets ! i \<le> max_offset_deviation) (drop (i + 1) offsets)"

definition is_match_spec :: "(rat \<times> int) list \<Rightarrow> rat \<Rightarrow> int \<Rightarrow> int \<Rightarrow> bool" where
  "is_match_spec pairs threshold min_consistent_offsets max_offset_deviation =
     (let high = filter (\<lambda>(c, ofs). c \<ge> threshold) pairs
      in if int (length high) < min_consistent_offsets then False
         else
           let offsets = map snd (sort_key snd high)
           in (\<exists>i \<in> set [0..<length offsets].
                 int (length (cluster_at offsets max_offset_deviation i))
                   \<ge> min_consistent_offsets))"

text \<open>
  The similarity in the specification's words: cut both sequences to the shorter length and
  take the mean of \<open>(32 - popcount (x XOR y)) / 32\<close> over the aligned frames, where the
  population count of a 32-bit frame is the number of its set bits.
\<close>

definition popcount32 :: "int \<Rightarrow> nat" where
  "popcount32 n = length (filter (bit n) [0..<32])"

definition similarity_spec :: "fingerprint \<Rightarrow> fingerprint \<Rightarrow> rat" where
  "similarity_spec x y =
     (let n = min (length x) (length y);
          x' = take n x;
          y' = take n y
      in sum_list (map (\<lambda>(a, b). (32 - of_nat (popcount32 (a XOR b))) / 32) (zip x' y'))
           / of_nat n)"

text \<open>What one iteration of the loop of \<^verbatim>\<open>correlation\<close> adds for a pair of frames.\<close>

definition frame_agreement :: "int \<times> int \<Rightarrow> int" where
  "frame_agreement p = 32 - int (count_char (bin (fst p XOR snd p)) CHR ''1'')"

text \<open>
  The offsets of a sweep: the members \<open>- span + k * step\<close> of the arithmetic sequence that
  starts at \<open>- span\<close>, as far as they do not exceed \<open>+ span\<close>.
\<close>

definition sweep_offsets :: "int \<Rightarrow> int \<Rightarrow> int list" where
  "sweep_offsets span' step' =
     map (\<lambda>k. - span' + int k * step') [0..<nat (2 * span' div step' + 1)]"

text \<open>
  What the scan appends for a window and a reference that match: the reference's name, a
  hundred times the largest score of the pair's profile, which has no absent entry and
  reaches the threshold 0.60, and the window offset.
\<close>

definition emits ::
  "string \<Rightarrow> string \<Rightarrow> int \<Rightarrow> fingerprint \<Rightarrow> fingerprint \<Rightarrow> found_song \<Rightarrow> bool" where
  "emits fingerprints_dir path offset source_fingerprint short_fingerprint t =
     (\<exists>corr. compare source_fingerprint short_fingerprint
               (span_to_use_of source_fingerprint short_fingerprint) 10 = Inr corr
        \<and> corr \<noteq> [] \<and> None \<notin> set corr \<and> 3 / 5 \<le> Max (the ` set corr)
        \<and> t = (song_name fingerprints_dir path, Max (the ` set corr) * 100, offset))"

section \<open>The match decision is the specified one\<close>

lemma cluster_loop_takeWhile:
  "cluster \<noteq> [] \<Longrightarrow>
   cluster_loop offsets d j cluster =
     cluster @ takeWhile (\<lambda>x. x - hd cluster \<le> d) (drop j offsets)"
proof (induction offsets d j cluster rule: cluster_loop.induct)
  case (1 offsets d j cluster)
  show ?case
  proof (cases "j < length offsets")
    case False
    then show ?thesis by (simp add: cluster_loop.simps [of offsets d j cluster])
  next
    case True
    then have dr: "drop j offsets = offsets ! j # drop (j + 1) offsets"
      by (simp add: Cons_nth_drop_Suc)
    show ?thesis
    proof (cases "offsets ! j - hd cluster \<le> d")
      case False
      with True dr show ?thesis by (simp add: cluster_loop.simps [of offsets d j cluster])
    next
      case t: True
      have "cluster_loop offsets d (j + 1) (cluster @ [offsets ! j]) =
            (cluster @ [offsets ! j]) @ takeWhile (\<lambda>x. x - hd (cluster @ [offsets ! j]) \<le> d) (drop (j + 1) offsets)"
        using "1.IH" [OF True t] by simp
      with True t dr "1.prems" show ?thesis
        by (simp add: cluster_loop.simps [of offsets d j cluster])
    qed
  qed
qed

lemma cluster_loop_cluster_at:
  "cluster_loop offsets d (Suc i) [offsets ! i] = cluster_at offsets d i"
  by (simp add: cluster_loop_takeWhile cluster_at_def)

lemma match_loop_ex:
  "match_loop offsets m d i =
     (\<exists>k \<in> set [i..<length offsets]. m \<le> int (length (cluster_at offsets d k)))"
proof (induction offsets m d i rule: match_loop.induct)
  case (1 offsets m d i)
  show ?case
  proof (cases "i < length offsets")
    case False
    then show ?thesis by (simp add: match_loop.simps [of offsets m d i])
  next
    case True
    then have up: "[i..<length offsets] = i # [i + 1..<length offsets]"
      by (simp add: upt_conv_Cons)
    show ?thesis
    proof (cases "m \<le> int (length (cluster_at offsets d i))")
      case t: True
      with True up show ?thesis
        by (simp add: match_loop.simps [of offsets m d i] cluster_loop_cluster_at)
    next
      case f: False
      have "match_loop offsets m d (i + 1) =
        (\<exists>k \<in> set [i + 1..<length offsets]. m \<le> int (length (cluster_at offsets d k)))"
        using "1.IH" [OF True refl] f by (simp add: cluster_loop_cluster_at)
      with True f show ?thesis
        unfolding up
        by (simp add: match_loop.simps [of offsets m d i] cluster_loop_cluster_at)
    qed
  qed
qed

lemma high_corrs_of_present:
  "high_corrs_of (map (\<lambda>(c, ofs). (Some c, ofs)) pairs) threshold =
     Inr (filter (\<lambda>(c, ofs). c \<ge> threshold) pairs)"
  by (induction pairs) (auto)

text \<open>
  C1. On a list whose scores are all present, \<open>is_match\<close> answers what the specification
  describes: it keeps the pairs with score at least the threshold, answers no when fewer
  than \<open>min_consistent_offsets\<close> remain, sorts the rest by offset and answers yes exactly when
  some starting index has a cluster (anchor first, then the entries within
  \<open>max_offset_deviation\<close> of the anchor, up to the first one that is not) of at least
  \<open>min_consistent_offsets\<close> members. The high-scoring offsets 0, 4, 9 with deviation 5 and
  minimum 3 are no match.
\<close>

theorem is_match_refines:
  "is_match (map (\<lambda>(c, ofs). (Some c, ofs)) pairs) threshold m d
     = Inr (is_match_spec pairs threshold m d)
   \<and> (threshold \<le> c0 \<and> threshold \<le> c1 \<and> threshold \<le> c2 \<longrightarrow>
        is_match [(Some c0, 0), (Some c1, 4), (Some c2, 9)] threshold 3 5 = Inr False)"
proof
  show "is_match (map (\<lambda>(c, ofs). (Some c, ofs)) pairs) threshold m d
     = Inr (is_match_spec pairs threshold m d)"
    by (simp add: is_match_def is_match_spec_def high_corrs_of_present match_loop_ex Let_def)
next
  show "threshold \<le> c0 \<and> threshold \<le> c1 \<and> threshold \<le> c2 \<longrightarrow>
        is_match [(Some c0, 0), (Some c1, 4), (Some c2, 9)] threshold 3 5 = Inr False"
  proof
    assume h: "threshold \<le> c0 \<and> threshold \<le> c1 \<and> threshold \<le> c2"
    from h show "is_match [(Some c0, 0), (Some c1, 4), (Some c2, 9)] threshold 3 5 = Inr False"
      by (simp add: is_match_def match_loop_ex cluster_at_def atLeast0_lessThan_Suc)
  qed
qed

theorem is_match_refines_witness:
  "is_match [(Some 1, 0), (Some (1/2), 2), (Some 1, 4), (Some 1, 5)] (3/4) 3 5 = Inr True
   \<and> is_match_spec [(1, 0), (1/2, 2), (1, 4), (1, 5)] (3/4) 3 5
   \<and> (3/4 \<le> (1::rat) \<and> 3/4 \<le> (4/5::rat) \<and> 3/4 \<le> (9/10::rat))
   \<and> is_match [(Some 1, 0), (Some (4/5), 4), (Some (9/10), 9)] (3/4) 3 5 = Inr False"
proof -
  have s: "is_match_spec [(1, 0), (1/2, 2), (1, 4), (1, 5)] (3/4) 3 5"
    by (simp add: is_match_spec_def cluster_at_def atLeast0_lessThan_Suc)
  show ?thesis
    using is_match_refines [of "[(1, 0), (1/2, 2), (1, 4), (1, 5)]" "3/4" 3 5 1 "4/5" "9/10"] s
    by simp
qed

section \<open>The similarity is the specified mean\<close>

lemma covariance_loop_sum:
  "length listy = length listx \<Longrightarrow> i \<le> length listx \<Longrightarrow>
   covariance_loop listx listy i c =
     c + sum_list (map frame_agreement (drop i (zip listx listy)))"
proof (induction listx listy i c rule: covariance_loop.induct)
  case (1 listx listy i c)
  show ?case
  proof (cases "i < length listx")
    case False
    with "1.prems" show ?thesis
      by (subst covariance_loop.simps) simp
  next
    case True
    with "1.prems" have dr: "drop i (zip listx listy) = (listx ! i, listy ! i) # drop (Suc i) (zip listx listy)"
      by (simp add: Cons_nth_drop_Suc [symmetric])
    from True "1.prems" "1.IH" [OF True]
    show ?thesis
      by (simp add: covariance_loop.simps [of listx listy i c] dr frame_agreement_def)
  qed
qed

lemma count_ones_bin_digits:
  "m < 2 ^ k \<Longrightarrow> count_char (bin_digits m) CHR ''1'' = length (filter (bit m) [0..<k])"
proof (induction k arbitrary: m)
  case 0
  then show ?case by (simp add: bin_digits.simps [of 0] count_char_def)
next
  case (Suc k)
  have up: "[0..<Suc k] = 0 # map Suc [0..<k]"
    by (simp add: upt_conv_Cons map_Suc_upt del: upt_Suc)
  have fl: "length (filter (bit m) [0..<Suc k]) = (if odd m then 1 else 0) + length (filter (bit (m div 2)) [0..<k])"
    unfolding up by (simp add: filter_map comp_def bit_Suc bit_0)
  show ?case
  proof (cases "m < 2")
    case True
    then have "m = 0 \<or> m = 1" by auto
    then show ?thesis unfolding fl
      by (auto simp: bin_digits.simps [of 0] bin_digits.simps [of 1] bin_digits.simps [of "Suc 0"] count_char_def)
  next
    case False
    from Suc.prems have "m div 2 < 2 ^ k" by auto
    from Suc.IH [OF this] False show ?thesis unfolding fl
      by (auto simp: bin_digits.simps [of m] count_char_def odd_iff_mod_2_eq_one)
  qed
qed

lemma count_ones_bin:
  assumes "0 \<le> n" "n < 2 ^ 32"
  shows "count_char (bin n) CHR ''1'' = popcount32 n"
proof -
  from assms have "nat n < 2 ^ 32" by (simp add: nat_less_iff)
  have "filter (bit (nat n)) [0..<32] = filter (bit n) [0..<32]"
    by (rule filter_cong) (simp_all add: bit_nat_iff assms)
  with count_ones_bin_digits [OF \<open>nat n < 2 ^ 32\<close>] assms
  show ?thesis
    by (simp add: bin_def popcount32_def count_char_def)
qed


lemma sum_list_agreement:
  "of_int (sum_list (map f ps)) / (n * (32::rat)) = sum_list (map (\<lambda>p. of_int (f p) / 32) ps) / n"
proof -
  have "of_int (sum_list (map f ps)) / (32::rat) = sum_list (map (\<lambda>p. of_int (f p) / 32) ps)"
    by (induction ps) (simp_all add: add_divide_distrib)
  then show ?thesis by (simp add: mult.commute)
qed

lemma correlation_mean:
  assumes "listx \<noteq> []" "listy \<noteq> []"
  shows "correlation listx listy =
     Inr (sum_list (map (\<lambda>p. of_int (frame_agreement p) / 32)
            (zip (take (min (length listx) (length listy)) listx)
                 (take (min (length listx) (length listy)) listy)))
          / of_nat (min (length listx) (length listy)))"
proof -
  let ?n = "min (length listx) (length listy)"
  consider "length listx > length listy" | "length listx < length listy" | "length listx = length listy"
    by linarith
  then show ?thesis
  proof cases
    case 1
    then have n: "?n = length listy" by simp
    from 1 have l: "length listy = length (take (length listy) listx)" by simp
    show ?thesis using assms 1 unfolding n
      by (simp add: correlation_def covariance_loop_sum [OF l] sum_list_agreement)
  next
    case 2
    then have n: "?n = length listx" by simp
    from 2 have l: "length (take (length listx) listy) = length listx" by simp
    show ?thesis using assms 2 unfolding n
      by (simp add: correlation_def covariance_loop_sum [OF l] sum_list_agreement)
  next
    case 3
    then have n: "?n = length listx" by simp
    from 3 have l: "length listy = length listx" by simp
    show ?thesis using assms 3 unfolding n
      by (simp add: correlation_def covariance_loop_sum [OF l] sum_list_agreement)
  qed
qed

lemma frame_agreement_popcount:
  assumes "0 \<le> a" "a < 2 ^ 32" "0 \<le> b" "b < 2 ^ 32"
  shows "(of_int (frame_agreement (a, b)) :: rat) = 32 - of_nat (popcount32 (a XOR b))"
proof -
  have "0 \<le> a XOR b" using assms by simp
  moreover have "a XOR b < 2 ^ 32" using assms by (intro XOR_upper) simp_all
  ultimately show ?thesis
    by (simp add: frame_agreement_def count_ones_bin)
qed

text \<open>
  C2. \<open>correlation\<close> fails with its empty-input exception when either list is empty. On
  non-empty fingerprints of 32-bit unsigned frames it cuts the longer list to the length of
  the shorter and returns the mean, over the aligned frames, of
  \<open>(32 - popcount (x XOR y)) / 32\<close>.
\<close>

theorem correlation_spec:
  "(listx = [] \<or> listy = [] \<longrightarrow>
      correlation listx listy = Inl (Exception ''Empty lists cannot be correlated.''))
   \<and> (listx \<noteq> [] \<and> listy \<noteq> [] \<and> (\<forall>a \<in> set listx \<union> set listy. 0 \<le> a \<and> a < 2 ^ 32) \<longrightarrow>
      correlation listx listy = Inr (similarity_spec listx listy))"
proof (intro conjI impI)
  assume "listx = [] \<or> listy = []"
  then show "correlation listx listy = Inl (Exception ''Empty lists cannot be correlated.'')"
    by (auto simp: correlation_def)
next
  assume h: "listx \<noteq> [] \<and> listy \<noteq> [] \<and> (\<forall>a \<in> set listx \<union> set listy. 0 \<le> a \<and> a < 2 ^ 32)"
  let ?n = "min (length listx) (length listy)"
  have m: "map (\<lambda>p. (of_int (frame_agreement p) :: rat) / 32) (zip (take ?n listx) (take ?n listy))
      = map (\<lambda>(a, b). (32 - of_nat (popcount32 (a XOR b))) / 32) (zip (take ?n listx) (take ?n listy))"
  proof (rule map_cong [OF refl])
    fix p assume "p \<in> set (zip (take ?n listx) (take ?n listy))"
    then have "(fst p, snd p) \<in> set (zip (take ?n listx) (take ?n listy))" by simp
    then have "fst p \<in> set (take ?n listx)" "snd p \<in> set (take ?n listy)"
      by (rule set_zip_leftD, rule set_zip_rightD)
    then have "fst p \<in> set listx" "snd p \<in> set listy"
      by (auto dest: in_set_takeD)
    with h have "0 \<le> fst p" "fst p < 2 ^ 32" "0 \<le> snd p" "snd p < 2 ^ 32" by auto
    from frame_agreement_popcount [OF this]
    show "(of_int (frame_agreement p) :: rat) / 32 = (case p of (a, b) \<Rightarrow> (32 - of_nat (popcount32 (a XOR b))) / 32)"
      by (simp add: case_prod_beta)
  qed
  from h have ne: "listx \<noteq> []" "listy \<noteq> []" by simp_all
  show "correlation listx listy = Inr (similarity_spec listx listy)"
    unfolding correlation_mean [OF ne] m similarity_spec_def Let_def ..
qed

theorem correlation_spec_witness:
  "correlation [] [1] = Inl (Exception ''Empty lists cannot be correlated.'')
   \<and> correlation [5, 3, 4294967295] [1, 7] = Inr (31 / 32)
   \<and> similarity_spec [5, 3, 4294967295] [1, 7] = 31 / 32"
proof -
  have s: "similarity_spec [5, 3, 4294967295] [1, 7] = 31 / 32"
    by code_simp
  show ?thesis
    using correlation_spec [of "[]" "[1]"] correlation_spec [of "[5, 3, 4294967295]" "[1, 7]"] s
    by simp
qed

section \<open>The sweep\<close>

lemma correlation_Inr:
  "listx \<noteq> [] \<Longrightarrow> listy \<noteq> [] \<Longrightarrow> \<exists>c. correlation listx listy = Inr c"
  by (simp add: correlation_def Let_def)

lemma cross_correlation_Inr: "\<exists>c. cross_correlation listx listy offset = Inr c"
proof -
  obtain lx ly where s:
    "(if offset > 0
      then (let lx = drop (nat offset) listx in (lx, take (length lx) listy))
      else if offset < 0
      then (let ly = drop (nat (- offset)) listy in (take (length ly) listx, ly))
      else (listx, listy)) = (lx, ly)"
    by (meson surj_pair)
  show ?thesis
  proof (cases "min (int (length lx)) (int (length ly)) < min_overlap")
    case True
    with s show ?thesis by (simp add: cross_correlation_def)
  next
    case False
    then have "lx \<noteq> []" "ly \<noteq> []" by (auto simp: min_overlap_def)
    from correlation_Inr [OF this] obtain c where "correlation lx ly = Inr c" ..
    with s False show ?thesis by (simp add: cross_correlation_def)
  qed
qed

lemma compare_loop_map:
  "\<exists>corr. compare_loop listx listy offsets corr_xy = Inr (corr_xy @ corr)
      \<and> map Inr corr = map (cross_correlation listx listy) offsets"
proof (induction offsets arbitrary: corr_xy)
  case Nil
  then show ?case by simp
next
  case (Cons offset rest)
  obtain c where c: "cross_correlation listx listy offset = Inr c"
    using cross_correlation_Inr by blast
  from Cons.IH [of "corr_xy @ [c]"] obtain corr where
    "compare_loop listx listy rest (corr_xy @ [c]) = Inr ((corr_xy @ [c]) @ corr)"
    "map Inr corr = map (cross_correlation listx listy) rest" by blast
  with c have "compare_loop listx listy (offset # rest) corr_xy = Inr (corr_xy @ (c # corr))
      \<and> map Inr (c # corr) = map (cross_correlation listx listy) (offset # rest)"
    by simp
  then show ?case by blast
qed

lemma ceil_div_succ:
  fixes a b :: int
  assumes "0 < b"
  shows "- ((- (a + 1)) div b) = a div b + 1"
proof -
  have "- (a + 1) = b * (- (a div b) - 1) + (b - a mod b - 1)"
    by (simp add: algebra_simps)
  moreover have "0 \<le> b - a mod b - 1" using assms pos_mod_bound [of b a] by linarith
  moreover have "b - a mod b - 1 < b" using assms pos_mod_sign [of b a] by linarith
  ultimately have "(- (a + 1)) div b = - (a div b) - 1"
    by (rule int_div_pos_eq)
  then show ?thesis by simp
qed

lemma arange_sweep:
  "0 < step' \<Longrightarrow> arange (- span') (span' + 1) step' = Inr (sweep_offsets span' step')"
proof -
  assume p: "0 < step'"
  have "- span' - (span' + 1) = - (2 * span' + 1)" by simp
  with ceil_div_succ [OF p, of "2 * span'"] p show ?thesis
    by (simp add: arange_def sweep_offsets_def)
qed

lemma sweep_offsets_increasing:
  "0 < step' \<Longrightarrow> sorted_wrt (<) (sweep_offsets span' step')"
  by (simp add: sweep_offsets_def sorted_wrt_map sorted_wrt_mono_rel [OF _ sorted_wrt_upt])

lemma compare_sweep:
  assumes "0 < step'" "span' \<le> min (int (length listx)) (int (length listy))"
  shows "\<exists>corr. compare listx listy span' step' = Inr corr
      \<and> map Inr corr = map (cross_correlation listx listy) (sweep_offsets span' step')"
  using assms compare_loop_map [of listx listy "sweep_offsets span' step'" "[]"]
  by (auto simp: compare_def arange_sweep)

lemma le_div_iff_int:
  fixes k a b :: int
  assumes "0 < b"
  shows "k \<le> a div b \<longleftrightarrow> k * b \<le> a"
proof
  assume "k \<le> a div b"
  with assms have "k * b \<le> (a div b) * b" by simp
  also have "\<dots> \<le> a"
  proof -
    have "(a div b) * b + a mod b = a" by simp
    moreover have "0 \<le> a mod b" using assms by simp
    ultimately show ?thesis by linarith
  qed
  finally show "k * b \<le> a" .
next
  assume "k * b \<le> a"
  from zdiv_mono1 [OF this assms] assms show "k \<le> a div b" by simp
qed

lemma sweep_offsets_set:
  assumes "0 < step'"
  shows "set (sweep_offsets span' step') =
     {x. \<exists>k. x = - span' + int k * step' \<and> x \<le> span'}"
proof -
  have "int k < 2 * span' div step' + 1 \<longleftrightarrow> - span' + int k * step' \<le> span'" for k
  proof -
    have "int k < 2 * span' div step' + 1 \<longleftrightarrow> int k \<le> 2 * span' div step'" by linarith
    also have "\<dots> \<longleftrightarrow> int k * step' \<le> 2 * span'"
      using assms by (rule le_div_iff_int)
    finally show ?thesis by linarith
  qed
  then show ?thesis
    by (auto simp: sweep_offsets_def image_iff Bex_def nat_less_iff zless_nat_eq_int_zless)
qed


lemma compare_span_too_large:
  "min (int (length listx)) (int (length listy)) < span' \<Longrightarrow>
   compare listx listy span' step' =
     Inl (Exception (span_message span' (min (int (length listx)) (int (length listy)))))"
  by (simp add: compare_def)

lemma compare_no_exception:
  assumes "span' \<le> min (int (length listx)) (int (length listy))"
  shows "compare listx listy span' step' \<noteq> Inl (Exception msg)"
proof (cases "arange (- span') (span' + 1) step'")
  case (Inl e)
  then have "e = ArangeError" by (auto simp: arange_def split: if_splits)
  with Inl assms show ?thesis by (auto simp: compare_def)
next
  case (Inr offsets)
  with assms compare_loop_map [of listx listy offsets "[]"] show ?thesis
    by (auto simp: compare_def)
qed

lemma span_message_mentions_span:
  "sublist (format_i span') (span_message span' limit)"
proof -
  have "span_message span' limit = ''span >= sample size: '' @ format_i span' @
      ('' >= '' @ format_i limit @ [CHR 0x0A]
         @ ''Reduce span, reduce crop or increase sample_time.'')"
    by (simp add: span_message_def)
  then show ?thesis
    unfolding sublist_def by blast
qed

lemma span_message_mentions_limit:
  "sublist (format_i limit) (span_message span' limit)"
proof -
  have "span_message span' limit = (''span >= sample size: '' @ format_i span' @ '' >= '') @
      format_i limit @ ([CHR 0x0A] @ ''Reduce span, reduce crop or increase sample_time.'')"
    by (simp add: span_message_def)
  then show ?thesis
    unfolding sublist_def by blast
qed

text \<open>
  C7. \<open>compare\<close> raises its span exception exactly when the span exceeds the length of the
  shorter fingerprint: above that length the result is the exception, whose message contains
  the decimal numerals of the span and of that length; up to that length the result is never
  an \<open>Exception\<close>, whatever the step.
\<close>

theorem compare_span_error:
  "(min (int (length listx)) (int (length listy)) < span' \<longrightarrow>
      compare listx listy span' step' =
        Inl (Exception (span_message span' (min (int (length listx)) (int (length listy)))))
      \<and> sublist (format_i span')
            (span_message span' (min (int (length listx)) (int (length listy))))
      \<and> sublist (format_i (min (int (length listx)) (int (length listy))))
            (span_message span' (min (int (length listx)) (int (length listy)))))
   \<and> (span' \<le> min (int (length listx)) (int (length listy)) \<longrightarrow>
        (\<forall>msg. compare listx listy span' step' \<noteq> Inl (Exception msg)))"
  using compare_span_too_large [of listx listy span' step']
    compare_no_exception [of span' listx listy step']
    span_message_mentions_span [of span' "min (int (length listx)) (int (length listy))"]
    span_message_mentions_limit [of "min (int (length listx)) (int (length listy))" span']
  by blast

theorem compare_span_error_witness:
  "min (int (length [1, 2, 3 :: int])) (int (length [1, 2, 3, 4 :: int])) < 5
   \<and> compare [1, 2, 3] [1, 2, 3, 4] 5 1 =
       Inl (Exception (''span >= sample size: 5 >= 3'' @ [CHR 0x0A] @
                       ''Reduce span, reduce crop or increase sample_time.''))
   \<and> sublist ''5'' (span_message 5 3) \<and> sublist ''3'' (span_message 5 3)
   \<and> 3 \<le> min (int (length [1, 2, 3 :: int])) (int (length [1, 2, 3, 4 :: int]))
   \<and> compare [1, 2, 3] [1, 2, 3, 4] 3 1 = Inr [None, None, None, None, None, None, None]"
proof -
  have f: "format_i 5 = ''5''" "format_i 3 = ''3''"
    by code_simp+
  have m: "span_message 5 3 = ''span >= sample size: 5 >= 3'' @ [CHR 0x0A] @
                       ''Reduce span, reduce crop or increase sample_time.''"
    by (simp add: span_message_def f)
  have c: "compare [1, 2, 3] [1, 2, 3, 4] 3 1 = Inr [None, None, None, None, None, None, None]"
    by code_simp
  show ?thesis
    using compare_span_error [of "[1, 2, 3]" "[1, 2, 3, 4]" 5 1]
      compare_span_error [of "[1, 2, 3]" "[1, 2, 3, 4]" 3 1] c
    by (simp add: m f)
qed

text \<open>
  C5, as amended. With a positive step and a span of at most the shorter length, \<open>compare\<close>
  returns one entry per offset of \<open>sweep_offsets\<close>, each the result of \<open>cross_correlation\<close>
  at that offset, in that order. These are the offsets \<open>numpy.arange\<close> yields, namely the values
  \<open>- span + k * step\<close> that are at most \<open>+ span\<close>, in strictly increasing order; \<open>+ span\<close>
  itself is among them exactly when the step divides \<open>2 * span\<close>.
\<close>

theorem sweep_offsets_exact:
  "0 < step' \<and> span' \<le> min (int (length listx)) (int (length listy)) \<longrightarrow>
     (\<exists>corr. compare listx listy span' step' = Inr corr
        \<and> map Inr corr = map (cross_correlation listx listy) (sweep_offsets span' step'))
     \<and> arange (- span') (span' + 1) step' = Inr (sweep_offsets span' step')
     \<and> set (sweep_offsets span' step') = {x. \<exists>k. x = - span' + int k * step' \<and> x \<le> span'}
     \<and> sorted_wrt (<) (sweep_offsets span' step')
     \<and> (0 \<le> span' \<longrightarrow> (span' \<in> set (sweep_offsets span' step') \<longleftrightarrow> step' dvd 2 * span'))"
proof (intro impI conjI)
  assume h: "0 < step' \<and> span' \<le> min (int (length listx)) (int (length listy))"
  then have p: "0 < step'" and b: "span' \<le> min (int (length listx)) (int (length listy))"
    by simp_all
  show "\<exists>corr. compare listx listy span' step' = Inr corr
        \<and> map Inr corr = map (cross_correlation listx listy) (sweep_offsets span' step')"
    by (rule compare_sweep [OF p b])
  show "arange (- span') (span' + 1) step' = Inr (sweep_offsets span' step')"
    by (rule arange_sweep [OF p])
  show s: "set (sweep_offsets span' step') = {x. \<exists>k. x = - span' + int k * step' \<and> x \<le> span'}"
    by (rule sweep_offsets_set [OF p])
  show "sorted_wrt (<) (sweep_offsets span' step')"
    by (rule sweep_offsets_increasing [OF p])
  assume n: "0 \<le> span'"
  show "span' \<in> set (sweep_offsets span' step') \<longleftrightarrow> step' dvd 2 * span'"
  proof
    assume "span' \<in> set (sweep_offsets span' step')"
    with s obtain k where "span' = - span' + int k * step'" by auto
    then have "2 * span' = step' * int k" by (simp add: mult.commute)
    then show "step' dvd 2 * span'" by (rule dvdI)
  next
    assume "step' dvd 2 * span'"
    then obtain q where q: "2 * span' = step' * q" by (rule dvdE)
    from q n have "0 \<le> step' * q" by simp
    with p have "0 \<le> q" by (simp add: zero_le_mult_iff)
    then obtain k where "q = int k" using nonneg_int_cases by blast
    with q have "span' = - span' + int k * step'" by (simp add: mult.commute)
    with s show "span' \<in> set (sweep_offsets span' step')" by auto
  qed
qed


theorem sweep_offsets_exact_witness:
  "(0::int) < 10 \<and> (24::int) \<le> min (int (length (replicate 25 (0::int)))) (int (length (replicate 30 (0::int))))
   \<and> arange (- 24) (24 + 1) 10 = Inr [- 24, - 14, - 4, 6, 16]
   \<and> compare (replicate 25 0) (replicate 30 0) 24 10 = Inr [None, None, Some 1, None, None]
   \<and> (24::int) \<notin> set (sweep_offsets 24 10) \<and> \<not> (10::int) dvd 2 * 24
   \<and> sorted_wrt (<) (sweep_offsets 24 10)"
proof -
  have s: "sweep_offsets 24 10 = [- 24, - 14, - 4, 6, 16]"
    by code_simp
  have c: "compare (replicate 25 0) (replicate 30 0) 24 10 = Inr [None, None, Some 1, None, None]"
    by code_simp
  have d: "\<not> (10::int) dvd 2 * 24"
    by presburger
  have h: "(0::int) < 10 \<and>
      (24::int) \<le> min (int (length (replicate 25 (0::int)))) (int (length (replicate 30 (0::int))))"
    by simp
  note t = sweep_offsets_exact [of 10 24 "replicate 25 0" "replicate 30 0", THEN mp, OF h]
  from t have a: "arange (- 24) (24 + 1) 10 = Inr (sweep_offsets 24 10)" by blast
  from t have o: "sorted_wrt (<) (sweep_offsets 24 10)" by blast
  from t have "(0::int) \<le> 24 \<longrightarrow> ((24::int) \<in> set (sweep_offsets 24 10) \<longleftrightarrow> (10::int) dvd 2 * 24)"
    by blast
  with d have n: "(24::int) \<notin> set (sweep_offsets 24 10)" by simp
  from h a o n c d show ?thesis
    by (simp add: s)
qed

text \<open>
  C5 as stated fails: with span 2 and step 3 the sweep evaluates the offsets \<open>-2\<close> and \<open>1\<close>
  only, so the upper bound \<open>+2\<close> is not evaluated.
\<close>

theorem sweep_upper_bound_counterexample:
  "compare (replicate 22 0) (replicate 22 0) 2 3 = Inr [Some 1, Some 1]
   \<and> arange (- 2) (2 + 1) 3 = Inr [- 2, 1]
   \<and> (2::int) \<le> min (int (length (replicate 22 (0::int)))) (int (length (replicate 22 (0::int))))"
  by code_simp

text \<open>
  C8. With a positive step and a span of at most the shorter length, \<open>compare\<close> returns
  \<open>\<lfloor>2 * span / step\<rfloor> + 1\<close> entries (none for a negative span, where that number is not
  positive), one per offset of the sweep, and the offsets are strictly increasing.
\<close>

theorem sweep_length:
  "0 < step' \<and> span' \<le> min (int (length listx)) (int (length listy)) \<longrightarrow>
     (\<exists>corr offsets.
        compare listx listy span' step' = Inr corr
        \<and> arange (- span') (span' + 1) step' = Inr offsets
        \<and> map Inr corr = map (cross_correlation listx listy) offsets
        \<and> length corr = nat (2 * span' div step' + 1)
        \<and> (0 \<le> span' \<longrightarrow> int (length corr) = 2 * span' div step' + 1)
        \<and> sorted_wrt (<) offsets)"
proof
  assume h: "0 < step' \<and> span' \<le> min (int (length listx)) (int (length listy))"
  then have p: "0 < step'" and b: "span' \<le> min (int (length listx)) (int (length listy))"
    by simp_all
  from compare_sweep [OF p b] obtain corr where
    c: "compare listx listy span' step' = Inr corr"
    and m: "map Inr corr = map (cross_correlation listx listy) (sweep_offsets span' step')"
    by blast
  from m have "length (map (Inr :: score \<Rightarrow> error + score) corr)
      = length (map (cross_correlation listx listy) (sweep_offsets span' step'))"
    by simp
  then have l: "length corr = nat (2 * span' div step' + 1)"
    by (simp add: sweep_offsets_def)
  have "0 \<le> span' \<longrightarrow> int (length corr) = 2 * span' div step' + 1"
  proof
    assume "0 \<le> span'"
    with p have "0 \<le> 2 * span' div step'" by (simp add: pos_imp_zdiv_nonneg_iff)
    with l show "int (length corr) = 2 * span' div step' + 1" by simp
  qed
  with c m l arange_sweep [OF p, of span'] sweep_offsets_increasing [OF p, of span']
  show "\<exists>corr offsets.
        compare listx listy span' step' = Inr corr
        \<and> arange (- span') (span' + 1) step' = Inr offsets
        \<and> map Inr corr = map (cross_correlation listx listy) offsets
        \<and> length corr = nat (2 * span' div step' + 1)
        \<and> (0 \<le> span' \<longrightarrow> int (length corr) = 2 * span' div step' + 1)
        \<and> sorted_wrt (<) offsets"
    by blast
qed

theorem sweep_length_witness:
  "(0::int) < 3 \<and> (4::int) \<le> min (int (length (replicate 24 (0::int)))) (int (length (replicate 25 (0::int))))
   \<and> compare (replicate 24 0) (replicate 25 0) 4 3 = Inr [Some 1, Some 1, Some 1]
   \<and> arange (- 4) (4 + 1) 3 = Inr [- 4, - 1, 2]
   \<and> int (length [Some (1::rat), Some 1, Some 1]) = 2 * 4 div 3 + 1
   \<and> sorted_wrt (<) [- 4, - 1, 2 :: int]"
proof -
  have c: "compare (replicate 24 0) (replicate 25 0) 4 3 = Inr [Some 1, Some 1, Some 1]"
    by code_simp
  have a: "arange (- 4) (4 + 1) 3 = Inr [- 4, - 1, 2]"
    by code_simp
  show ?thesis
    using sweep_length [of 3 4 "replicate 24 0" "replicate 25 0"] c a
    by simp
qed

section \<open>The scan, pair by pair and window by window\<close>

lemma high_corrs_of_None:
  "(None, ofs) \<in> set corr_scores \<Longrightarrow> high_corrs_of corr_scores threshold = Inl TypeError"
proof (induction corr_scores)
  case Nil
  then show ?case by simp
next
  case (Cons a rest)
  obtain c x where a: "a = (c, x)" by (cases a)
  show ?case
  proof (cases c)
    case None
    with a show ?thesis by simp
  next
    case (Some v)
    with a Cons.prems have "(None, ofs) \<in> set rest" by auto
    from Cons.IH [OF this] a Some show ?thesis by simp
  qed
qed

lemma high_corrs_of_error:
  "high_corrs_of corr_scores threshold = Inl e \<Longrightarrow> e = TypeError"
proof (induction corr_scores arbitrary: e)
  case Nil
  then show ?case by simp
next
  case (Cons a rest)
  obtain c x where a: "a = (c, x)" by (cases a)
  with Cons show ?case
    by (cases c; cases "high_corrs_of rest threshold") (auto split: if_splits)
qed

lemma high_corrs_of_Inr:
  "high_corrs_of corr_scores threshold = Inr hs \<Longrightarrow>
     None \<notin> fst ` set corr_scores
     \<and> set hs = {(v, x). (Some v, x) \<in> set corr_scores \<and> threshold \<le> v}"
proof (induction corr_scores arbitrary: hs)
  case Nil
  then show ?case by simp
next
  case (Cons a rest)
  obtain c x where a: "a = (c, x)" by (cases a)
  from Cons.prems a obtain v where v: "c = Some v" by (cases c) auto
  from Cons.prems a v obtain hs' where h: "high_corrs_of rest threshold = Inr hs'"
    by (cases "high_corrs_of rest threshold") auto
  from Cons.IH [OF h] have n: "None \<notin> fst ` set rest"
    and s: "set hs' = {(v, x). (Some v, x) \<in> set rest \<and> threshold \<le> v}" by simp_all
  from Cons.prems a v h have hs: "hs = (if threshold \<le> v then (v, x) # hs' else hs')" by simp
  from n a v have "None \<notin> fst ` set (a # rest)" by simp
  moreover from hs s a v have "set hs = {(v, x). (Some v, x) \<in> set (a # rest) \<and> threshold \<le> v}"
    by (auto split: if_splits)
  ultimately show ?case by simp
qed

lemma is_match_None:
  "(None, ofs) \<in> set corr_scores \<Longrightarrow> is_match corr_scores threshold m d = Inl TypeError"
  by (simp add: is_match_def high_corrs_of_None)

lemma is_match_error:
  "is_match corr_scores threshold m d = Inl e \<Longrightarrow> e = TypeError"
  by (cases "high_corrs_of corr_scores threshold")
     (auto simp: is_match_def Let_def dest: high_corrs_of_error split: if_splits)

lemma match_loop_Nil: "match_loop [] m d i = False"
  by (simp add: match_loop.simps [of "[]"])

lemma is_match_True:
  assumes "is_match corr_scores threshold m d = Inr True"
  shows "None \<notin> fst ` set corr_scores"
    and "\<exists>v x. (Some v, x) \<in> set corr_scores \<and> threshold \<le> v"
proof -
  from assms obtain hs where h: "high_corrs_of corr_scores threshold = Inr hs"
    by (cases "high_corrs_of corr_scores threshold") (auto simp: is_match_def)
  from high_corrs_of_Inr [OF h] show "None \<notin> fst ` set corr_scores" by simp
  from assms h have "match_loop (map snd (sort_key snd hs)) m d 0"
    by (auto simp: is_match_def Let_def split: if_splits)
  then have "hs \<noteq> []" by (auto simp: match_loop_Nil)
  then obtain v x where "(v, x) \<in> set hs" by (cases hs) auto
  with high_corrs_of_Inr [OF h]
  show "\<exists>v x. (Some v, x) \<in> set corr_scores \<and> threshold \<le> v" by auto
qed

lemma max_index_loop_present:
  "\<exists>r. max_index_loop (enumerate k (map Some ws)) mi (Some mv) = Inr r \<and>
     (if \<forall>w \<in> set ws. w \<le> mv then r = mi
      else k \<le> r \<and> r < k + length ws \<and> mv < ws ! (r - k)
         \<and> (\<forall>w \<in> set ws. w \<le> ws ! (r - k)) \<and> (\<forall>j < r - k. ws ! j < ws ! (r - k)))"
proof (induction ws arbitrary: k mi mv)
  case Nil
  then show ?case by simp
next
  case (Cons w ws)
  show ?case
  proof (cases "mv < w")
    case True
    from Cons.IH [of "Suc k" k w] obtain r where
      r: "max_index_loop (enumerate (Suc k) (map Some ws)) k (Some w) = Inr r"
      and p: "if \<forall>u \<in> set ws. u \<le> w then r = k
        else Suc k \<le> r \<and> r < Suc k + length ws \<and> w < ws ! (r - Suc k)
         \<and> (\<forall>u \<in> set ws. u \<le> ws ! (r - Suc k)) \<and> (\<forall>j < r - Suc k. ws ! j < ws ! (r - Suc k))"
      by blast
    from True r have e: "max_index_loop (enumerate k (map Some (w # ws))) mi (Some mv) = Inr r"
      by simp
    show ?thesis
    proof (cases "\<forall>u \<in> set ws. u \<le> w")
      case t: True
      with p have "r = k" by simp
      with True t e show ?thesis by auto
    next
      case False
      with p have q: "Suc k \<le> r" "r < Suc k + length ws" "w < ws ! (r - Suc k)"
        "\<forall>u \<in> set ws. u \<le> ws ! (r - Suc k)" "\<forall>j < r - Suc k. ws ! j < ws ! (r - Suc k)"
        by simp_all
      from q(1) have i: "(w # ws) ! (r - k) = ws ! (r - Suc k)"
        by (simp add: nth_Cons')
      have "\<forall>j < r - k. (w # ws) ! j < ws ! (r - Suc k)"
      proof (intro allI impI)
        fix j assume "j < r - k"
        then show "(w # ws) ! j < ws ! (r - Suc k)"
          using q(3) q(5) by (cases j) auto
      qed
      with True q i e show ?thesis by (auto simp: less_imp_le)
    qed
  next
    case False
    from Cons.IH [of "Suc k" mi mv] obtain r where
      r: "max_index_loop (enumerate (Suc k) (map Some ws)) mi (Some mv) = Inr r"
      and p: "if \<forall>u \<in> set ws. u \<le> mv then r = mi
        else Suc k \<le> r \<and> r < Suc k + length ws \<and> mv < ws ! (r - Suc k)
         \<and> (\<forall>u \<in> set ws. u \<le> ws ! (r - Suc k)) \<and> (\<forall>j < r - Suc k. ws ! j < ws ! (r - Suc k))"
      by blast
    from False r have e: "max_index_loop (enumerate k (map Some (w # ws))) mi (Some mv) = Inr r"
      by simp
    show ?thesis
    proof (cases "\<forall>u \<in> set ws. u \<le> mv")
      case t: True
      with p have "r = mi" by simp
      with False t e show ?thesis by auto
    next
      case f: False
      with p have q: "Suc k \<le> r" "r < Suc k + length ws" "mv < ws ! (r - Suc k)"
        "\<forall>u \<in> set ws. u \<le> ws ! (r - Suc k)" "\<forall>j < r - Suc k. ws ! j < ws ! (r - Suc k)"
        by simp_all
      from q(1) have i: "(w # ws) ! (r - k) = ws ! (r - Suc k)"
        by (simp add: nth_Cons')
      have "\<forall>j < r - k. (w # ws) ! j < ws ! (r - Suc k)"
      proof (intro allI impI)
        fix j assume "j < r - k"
        then show "(w # ws) ! j < ws ! (r - Suc k)"
          using q(3) q(5) False by (cases j) auto
      qed
      moreover from False q(3) have "w \<le> ws ! (r - Suc k)" by simp
      ultimately show ?thesis using f q i e by auto
    qed
  qed
qed

lemma max_index_present:
  assumes "vs \<noteq> []"
  shows "\<exists>r. max_index (map Some vs) = Inr r \<and> r < length vs
     \<and> (\<forall>w \<in> set vs. w \<le> vs ! r) \<and> (\<forall>j < r. vs ! j < vs ! r)"
proof -
  from assms obtain v ws where vs: "vs = v # ws" by (cases vs) auto
  from max_index_loop_present [of 0 vs 0 v] obtain r where
    r: "max_index_loop (enumerate 0 (map Some vs)) 0 (Some v) = Inr r"
    and p: "if \<forall>w \<in> set vs. w \<le> v then r = 0
      else 0 \<le> r \<and> r < 0 + length vs \<and> v < vs ! (r - 0)
         \<and> (\<forall>w \<in> set vs. w \<le> vs ! (r - 0)) \<and> (\<forall>j < r - 0. vs ! j < vs ! (r - 0))"
    by blast
  from r vs have m: "max_index (map Some vs) = Inr r"
    by (simp add: max_index_def)
  show ?thesis
  proof (cases "\<forall>w \<in> set vs. w \<le> v")
    case True
    with p have "r = 0" by simp
    with True vs m show ?thesis by auto
  next
    case False
    with p m show ?thesis by auto
  qed
qed


lemma span_to_use_less:
  "span_to_use_of s r < min (int (length s)) (int (length r))"
  unfolding span_to_use_of_def by linarith

lemma high_corrs_of_present_Inr:
  "None \<notin> fst ` set corr_scores \<Longrightarrow> \<exists>hs. high_corrs_of corr_scores threshold = Inr hs"
proof (induction corr_scores)
  case Nil
  then show ?case by simp
next
  case (Cons a rest)
  obtain c x where a: "a = (c, x)" by (cases a)
  with Cons.prems obtain v where v: "c = Some v" by (cases c) auto
  from Cons.prems have "None \<notin> fst ` set rest" by auto
  from Cons.IH [OF this] obtain hs where "high_corrs_of rest threshold = Inr hs" ..
  with a v show ?case by simp
qed

lemma is_match_present_Inr:
  "None \<notin> fst ` set corr_scores \<Longrightarrow> \<exists>b. is_match corr_scores threshold m d = Inr b"
  using high_corrs_of_present_Inr [of corr_scores threshold]
  by (auto simp: is_match_def Let_def)

lemma match_pair_result:
  assumes b: "sp \<le> min (int (length s)) (int (length r))"
  shows "\<exists>corr. compare s r sp 10 = Inr corr \<and>
    (if None \<in> set corr then match_pair dir p w s r sp found = Inl TypeError
     else match_pair dir p w s r sp found = Inr found \<or>
          (corr \<noteq> [] \<and> 3 / 5 \<le> Max (the ` set corr) \<and>
           match_pair dir p w s r sp found =
             Inr (found @ [(song_name dir p, Max (the ` set corr) * 100, w)])))"
proof -
  let ?offs = "sweep_offsets sp 10"
  have p10: "(0::int) < 10" by simp
  from compare_sweep [OF p10 b] obtain corr where
    c: "compare s r sp 10 = Inr corr"
    and m: "map Inr corr = map (cross_correlation s r) ?offs" by blast
  from m have "length (map (Inr :: score \<Rightarrow> error + score) corr)
      = length (map (cross_correlation s r) ?offs)" by simp
  then have l: "length corr = length ?offs" by simp
  have a: "arange (- sp) (sp + 1) 10 = Inr ?offs" by (rule arange_sweep [OF p10])
  have z: "fst ` set (zip corr ?offs) = set corr"
    using l by (metis map_fst_zip set_map)
  show ?thesis
  proof (cases "None \<in> set corr")
    case True
    with z obtain x where "(None, x) \<in> set (zip corr ?offs)" by force
    from is_match_None [OF this] c a True show ?thesis
      by (auto simp: match_pair_def)
  next
    case False
    with z have n: "None \<notin> fst ` set (zip corr ?offs)" by simp
    from is_match_present_Inr [OF n] obtain bb where
      i: "is_match (zip corr ?offs) (3 / 5) 1 5 = Inr bb" by blast
    show ?thesis
    proof (cases bb)
      case f: False
      with i c a False show ?thesis by (auto simp: match_pair_def)
    next
      case True
      with i have t: "is_match (zip corr ?offs) (3 / 5) 1 5 = Inr True" by simp
      from is_match_True(2) [OF t] obtain v x where
        vx: "(Some v, x) \<in> set (zip corr ?offs)" "3 / 5 \<le> v" by blast
      then have vin: "Some v \<in> set corr" by (auto dest: set_zip_leftD)
      then have ne: "corr \<noteq> []" by auto
      let ?vs = "map the corr"
      from False have cv: "corr = map Some ?vs"
        by (induction corr) auto
      from ne have vne: "?vs \<noteq> []" by simp
      from max_index_present [OF vne] cv obtain k where
        k: "max_index corr = Inr k" "k < length ?vs" "\<forall>u \<in> set ?vs. u \<le> ?vs ! k"
        by metis
      have sv: "set ?vs = the ` set corr" by simp
      from k(2) have "?vs ! k \<in> set ?vs" by (rule nth_mem)
      with k(3) have mx: "Max (set ?vs) = ?vs ! k"
        by (intro Max_eqI) auto
      from vin have "v \<in> set ?vs" by force
      with k(3) vx(2) have ge: "3 / 5 \<le> ?vs ! k" by force
      obtain u where u: "u = ?vs ! k" by simp
      from k(2) cv have "corr ! k = Some (?vs ! k)"
        by (metis length_map nth_map)
      with u have ck: "corr ! k = Some u" by simp
      from c a t k(1) k(2) ck
      have "match_pair dir p w s r sp found =
             Inr (found @ [(song_name dir p, u * 100, w)])"
        by (simp add: match_pair_def get_max_corr_def)
      with u have "match_pair dir p w s r sp found =
             Inr (found @ [(song_name dir p, ?vs ! k * 100, w)])" by simp
      with c False ne ge mx sv show ?thesis by auto
    qed
  qed
qed


lemma references_loop_fail:
  "gf q = Inl msg \<Longrightarrow> references_loop gf dir w src (q # ps) found = Inl (ExternalError msg)"
  by simp

lemma references_loop_step:
  "gf q = Inr ref \<Longrightarrow>
   references_loop gf dir w src (q # ps) found =
     (if ref = [] \<or> src = [] \<or> span_to_use_of src ref < min_overlap
      then references_loop gf dir w src ps found
      else (case match_pair dir q w src ref (span_to_use_of src ref) found of
              Inl e \<Rightarrow> Inl e
            | Inr found' \<Rightarrow> references_loop gf dir w src ps found'))"
  by (simp add: Let_def)

lemma match_pair_Inr:
  assumes "match_pair dir q w src ref (span_to_use_of src ref) found = Inr f"
  shows "f = found \<or> (\<exists>t. f = found @ [t] \<and> emits dir q w src ref t)"
proof -
  have b: "span_to_use_of src ref \<le> min (int (length src)) (int (length ref))"
    using span_to_use_less [of src ref] by simp
  from match_pair_result [OF b, of dir q w found] assms show ?thesis
    by (auto simp: emits_def split: if_splits)
qed

lemma match_pair_Inl:
  assumes "match_pair dir q w src ref (span_to_use_of src ref) found = Inl e"
  shows "e = TypeError"
proof -
  have b: "span_to_use_of src ref \<le> min (int (length src)) (int (length ref))"
    using span_to_use_less [of src ref] by simp
  from match_pair_result [OF b, of dir q w found] assms show ?thesis
    by (auto split: if_splits)
qed

lemma references_loop_emits:
  assumes "references_loop gf dir w src ps found = Inr found'"
  shows "\<exists>new. found' = found @ new \<and>
     (\<forall>t \<in> set new. \<exists>p \<in> set ps. \<exists>ref. gf p = Inr ref \<and> emits dir p w src ref t)"
  using assms
proof (induction ps arbitrary: found)
  case Nil
  then show ?case by simp
next
  case (Cons q ps)
  from Cons.prems obtain ref where g: "gf q = Inr ref"
    by (cases "gf q") auto
  note st = references_loop_step [where gf = gf and q = q, OF g, of dir w src ps found]
  show ?case
  proof (cases "ref = [] \<or> src = [] \<or> span_to_use_of src ref < min_overlap")
    case True
    with st Cons.prems have "references_loop gf dir w src ps found = Inr found'" by simp
    from Cons.IH [OF this] show ?thesis by auto
  next
    case False
    with st Cons.prems obtain f where
      mp: "match_pair dir q w src ref (span_to_use_of src ref) found = Inr f"
      and rl: "references_loop gf dir w src ps f = Inr found'"
      by (cases "match_pair dir q w src ref (span_to_use_of src ref) found") auto
    from Cons.IH [OF rl] obtain new where
      n: "found' = f @ new"
        "\<forall>t \<in> set new. \<exists>p \<in> set ps. \<exists>ref. gf p = Inr ref \<and> emits dir p w src ref t"
      by blast
    from match_pair_Inr [OF mp] show ?thesis
    proof
      assume "f = found"
      with n show ?thesis by auto
    next
      assume "\<exists>t. f = found @ [t] \<and> emits dir q w src ref t"
      then obtain t where t: "f = found @ [t]" "emits dir q w src ref t" by blast
      with n(1) have "found' = found @ (t # new)" by simp
      moreover from t(2) g n(2)
      have "\<forall>u \<in> set (t # new). \<exists>p \<in> set (q # ps). \<exists>ref. gf p = Inr ref \<and> emits dir p w src ref u"
        by auto
      ultimately show ?thesis by blast
    qed
  qed
qed

lemma references_loop_error:
  assumes "references_loop gf dir w src ps found = Inl e"
  shows "e = TypeError \<or> (\<exists>q \<in> set ps. \<exists>msg. gf q = Inl msg \<and> e = ExternalError msg)"
  using assms
proof (induction ps arbitrary: found)
  case Nil
  then show ?case by simp
next
  case (Cons q ps)
  show ?case
  proof (cases "gf q")
    case (Inl msg)
    with Cons.prems show ?thesis by auto
  next
    case (Inr ref)
    note st = references_loop_step [where gf = gf and q = q, OF Inr, of dir w src ps found]
    show ?thesis
    proof (cases "ref = [] \<or> src = [] \<or> span_to_use_of src ref < min_overlap")
      case True
      with st Cons.prems have "references_loop gf dir w src ps found = Inl e" by simp
      from Cons.IH [OF this] show ?thesis by auto
    next
      case False
      show ?thesis
      proof (cases "match_pair dir q w src ref (span_to_use_of src ref) found")
        case (Inl e')
        with st False Cons.prems have "e' = e" by simp
        with match_pair_Inl [OF Inl] show ?thesis by simp
      next
        case (Inr f)
        with st False Cons.prems have "references_loop gf dir w src ps f = Inl e" by simp
        from Cons.IH [OF this] show ?thesis by auto
      qed
    qed
  qed
qed

lemma references_loop_abort:
  assumes "p \<in> set ps" "gf p = Inr ref" "src \<noteq> []" "ref \<noteq> []"
    "\<not> span_to_use_of src ref < min_overlap"
    "compare src ref (span_to_use_of src ref) 10 = Inr corr" "None \<in> set corr"
  shows "\<exists>e. references_loop gf dir w src ps found = Inl e"
  using assms(1)
proof (induction ps arbitrary: found)
  case Nil
  then show ?case by simp
next
  case (Cons q ps)
  have b: "span_to_use_of src ref \<le> min (int (length src)) (int (length ref))"
    using span_to_use_less [of src ref] by simp
  show ?case
  proof (cases "q = p")
    case True
    from match_pair_result [OF b, of dir p w found] assms(6,7)
    have "match_pair dir p w src ref (span_to_use_of src ref) found = Inl TypeError"
      by auto
    with True assms(2-5) references_loop_step [where gf = gf and q = p, OF assms(2), of dir w src ps found]
    show ?thesis by simp
  next
    case False
    with Cons.prems have pin: "p \<in> set ps" by simp
    show ?thesis
    proof (cases "gf q")
      case (Inl msg)
      then show ?thesis by simp
    next
      case (Inr ref')
      note st = references_loop_step [where gf = gf and q = q, OF Inr, of dir w src ps found]
      show ?thesis
      proof (cases "ref' = [] \<or> src = [] \<or> span_to_use_of src ref' < min_overlap")
        case True
        with st Cons.IH [OF pin, of found] show ?thesis by simp
      next
        case f: False
        show ?thesis
        proof (cases "match_pair dir q w src ref' (span_to_use_of src ref') found")
          case (Inl e')
          with st f show ?thesis by simp
        next
          case (Inr f')
          with st f Cons.IH [OF pin, of f'] show ?thesis by simp
        qed
      qed
    qed
  qed
qed

lemma windows_loop_emits:
  assumes "windows_loop cf gf dir fps ws found = Inr found'"
  shows "\<exists>new. found' = found @ new \<and>
     (\<forall>t \<in> set new. \<exists>w \<in> set ws. \<exists>src. cf w = Inr src \<and>
        (\<exists>p \<in> set fps. \<exists>ref. gf p = Inr ref \<and> emits dir p w src ref t))"
  using assms
proof (induction ws arbitrary: found)
  case Nil
  then show ?case by simp
next
  case (Cons w ws)
  show ?case
  proof (cases "cf w")
    case (Inl msg)
    with Cons.prems have "windows_loop cf gf dir fps ws found = Inr found'" by simp
    from Cons.IH [OF this] show ?thesis by auto
  next
    case (Inr src)
    with Cons.prems obtain f where
      rl: "references_loop gf dir w src fps found = Inr f"
      and wl: "windows_loop cf gf dir fps ws f = Inr found'"
      by (cases "references_loop gf dir w src fps found") auto
    from references_loop_emits [OF rl] obtain new1 where
      n1: "f = found @ new1"
        "\<forall>t \<in> set new1. \<exists>p \<in> set fps. \<exists>ref. gf p = Inr ref \<and> emits dir p w src ref t"
      by blast
    from Cons.IH [OF wl] obtain new2 where
      n2: "found' = f @ new2"
        "\<forall>t \<in> set new2. \<exists>w \<in> set ws. \<exists>src. cf w = Inr src \<and>
           (\<exists>p \<in> set fps. \<exists>ref. gf p = Inr ref \<and> emits dir p w src ref t)"
      by blast
    from n1(1) n2(1) have "found' = found @ (new1 @ new2)" by simp
    moreover have "\<forall>t \<in> set (new1 @ new2). \<exists>w' \<in> set (w # ws). \<exists>src. cf w' = Inr src \<and>
           (\<exists>p \<in> set fps. \<exists>ref. gf p = Inr ref \<and> emits dir p w' src ref t)"
    proof
      fix t assume "t \<in> set (new1 @ new2)"
      then consider "t \<in> set new1" | "t \<in> set new2" by auto
      then show "\<exists>w' \<in> set (w # ws). \<exists>src. cf w' = Inr src \<and>
           (\<exists>p \<in> set fps. \<exists>ref. gf p = Inr ref \<and> emits dir p w' src ref t)"
      proof cases
        case 1
        with n1(2) Inr show ?thesis by auto
      next
        case 2
        with n2(2) show ?thesis by auto
      qed
    qed
    ultimately show ?thesis by blast
  qed
qed

lemma windows_loop_error:
  assumes "windows_loop cf gf dir fps ws found = Inl e"
  shows "e = TypeError \<or> (\<exists>q \<in> set fps. \<exists>msg. gf q = Inl msg \<and> e = ExternalError msg)"
  using assms
proof (induction ws arbitrary: found)
  case Nil
  then show ?case by simp
next
  case (Cons w ws)
  show ?case
  proof (cases "cf w")
    case (Inl msg)
    with Cons.prems have "windows_loop cf gf dir fps ws found = Inl e" by simp
    from Cons.IH [OF this] show ?thesis .
  next
    case (Inr src)
    show ?thesis
    proof (cases "references_loop gf dir w src fps found")
      case (Inl e')
      with Inr Cons.prems have "e' = e" by simp
      with references_loop_error [OF Inl] show ?thesis by simp
    next
      case r: (Inr f)
      with Inr Cons.prems have "windows_loop cf gf dir fps ws f = Inl e" by simp
      from Cons.IH [OF this] show ?thesis .
    qed
  qed
qed

lemma windows_loop_abort:
  assumes "w \<in> set ws" "cf w = Inr src"
    "p \<in> set fps" "gf p = Inr ref" "src \<noteq> []" "ref \<noteq> []"
    "\<not> span_to_use_of src ref < min_overlap"
    "compare src ref (span_to_use_of src ref) 10 = Inr corr" "None \<in> set corr"
  shows "\<exists>e. windows_loop cf gf dir fps ws found = Inl e"
  using assms(1)
proof (induction ws arbitrary: found)
  case Nil
  then show ?case by simp
next
  case (Cons v ws)
  show ?case
  proof (cases "v = w")
    case True
    from references_loop_abort [where gf = gf and p = p, OF assms(3-9), of dir w found] obtain e where
      "references_loop gf dir w src fps found = Inl e" ..
    with True assms(2) show ?thesis by simp
  next
    case False
    with Cons.prems have win: "w \<in> set ws" by simp
    show ?thesis
    proof (cases "cf v")
      case (Inl msg)
      with Cons.IH [OF win, of found] show ?thesis by simp
    next
      case (Inr src')
      show ?thesis
      proof (cases "references_loop gf dir v src' fps found")
        case (Inl e')
        with Inr show ?thesis by simp
      next
        case r: (Inr f)
        with Inr Cons.IH [OF win, of f] show ?thesis by simp
      qed
    qed
  qed
qed

lemma windows_loop_filter:
  "windows_loop cf gf dir fps ws found =
   windows_loop cf gf dir fps (filter (\<lambda>w. \<not> isl (cf w)) ws) found"
proof (induction ws arbitrary: found)
  case Nil
  then show ?case by simp
next
  case (Cons w ws)
  show ?case
  proof (cases "cf w")
    case (Inl msg)
    with Cons.IH [of found] show ?thesis by simp
  next
    case (Inr src)
    show ?thesis
    proof (cases "references_loop gf dir w src fps found")
      case (Inl e)
      with Inr show ?thesis by simp
    next
      case r: (Inr f)
      with Inr Cons.IH [of f] show ?thesis by simp
    qed
  qed
qed

section \<open>What the scan returns\<close>

text \<open>
  A scan of a recording of 510 seconds, so of the two windows at 0 and 10 seconds, against
  one reference. The fingerprint of the first window cannot be computed; the second window
  and the reference are 170 equal frames.
\<close>

lemma scan_example:
  "correlate (\<lambda>w. if w = 0 then Inl ''ffmpeg failed'' else Inr (replicate 170 0))
     (\<lambda>p. Inr (replicate 170 0)) 510 ''fp'' [''fp/a.fpcalc'']
   = Inr [(''a'', 100, 10)]"
  by code_simp

text \<open>
  C3. A list with an absent score makes \<open>is_match\<close> raise a type error. The scan does not
  catch it: when some window and reference that are compared have a profile with an absent
  entry, \<open>correlate\<close> ends in an error, and that error is the type error unless reading a
  reference file failed first.
\<close>

theorem absent_score_aborts:
  "((None, ofs) \<in> set corr_scores \<longrightarrow> is_match corr_scores threshold m d = Inl TypeError)
   \<and> (w \<in> set (py_range 0 (duration - sample_time + 1) 10) \<and> cf w = Inr src
        \<and> p \<in> set fps \<and> gf p = Inr ref \<and> src \<noteq> [] \<and> ref \<noteq> []
        \<and> \<not> span_to_use_of src ref < min_overlap
        \<and> compare src ref (span_to_use_of src ref) 10 = Inr corr \<and> None \<in> set corr
      \<longrightarrow> (\<exists>e. correlate cf gf duration dir fps = Inl e
             \<and> ((\<forall>q \<in> set fps. \<not> isl (gf q)) \<longrightarrow> e = TypeError)))"
proof (intro conjI impI)
  assume "(None, ofs) \<in> set corr_scores"
  then show "is_match corr_scores threshold m d = Inl TypeError"
    by (rule is_match_None)
next
  assume h: "w \<in> set (py_range 0 (duration - sample_time + 1) 10) \<and> cf w = Inr src
        \<and> p \<in> set fps \<and> gf p = Inr ref \<and> src \<noteq> [] \<and> ref \<noteq> []
        \<and> \<not> span_to_use_of src ref < min_overlap
        \<and> compare src ref (span_to_use_of src ref) 10 = Inr corr \<and> None \<in> set corr"
  then have "\<exists>e. windows_loop cf gf dir fps (py_range 0 (duration - sample_time + 1) 10) [] = Inl e"
    by (intro windows_loop_abort [where cf = cf and gf = gf and w = w and p = p
          and src = src and ref = ref and corr = corr]) simp_all
  then obtain e where e: "correlate cf gf duration dir fps = Inl e"
    by (auto simp: correlate_def)
  then have "windows_loop cf gf dir fps (py_range 0 (duration - sample_time + 1) 10) [] = Inl e"
    by (simp add: correlate_def)
  from windows_loop_error [OF this]
  have "(\<forall>q \<in> set fps. \<not> isl (gf q)) \<longrightarrow> e = TypeError" by auto
  with e show "\<exists>e. correlate cf gf duration dir fps = Inl e
             \<and> ((\<forall>q \<in> set fps. \<not> isl (gf q)) \<longrightarrow> e = TypeError)" by blast
qed

text \<open>A window of 30 frames against a reference of 170: the span is 29.\<close>

lemma short_window_example:
  "compare (replicate 30 0) (replicate 170 0) 29 10
     = Inr [Some 1, Some 1, Some 1, Some 1, None, None]"
  by code_simp

theorem absent_score_aborts_witness:
  "is_match [(Some 1, - 1), (None, 0), (Some 1, 1)] (3 / 5) 1 5 = Inl TypeError
   \<and> (0::int) \<in> set (py_range 0 (500 - sample_time + 1) 10)
   \<and> span_to_use_of (replicate 30 0) (replicate 170 0) = 29
   \<and> compare (replicate 30 0) (replicate 170 0) 29 10
        = Inr [Some 1, Some 1, Some 1, Some 1, None, None]
   \<and> correlate (\<lambda>w. Inr (replicate 30 0)) (\<lambda>p. Inr (replicate 170 0)) 500 ''fp''
        [''fp/a.fpcalc''] = Inl TypeError"
proof -
  have r: "py_range 0 (500 - sample_time + 1) 10 = [0]"
    by code_simp
  have r2: "py_range 0 1 10 = [0]"
    by code_simp
  have s: "span_to_use_of (replicate 30 0) (replicate 170 0) = 29"
    by (simp add: span_to_use_of_def span_global_def)
  have i: "is_match [(Some 1, - 1), (None, 0), (Some 1, 1)] (3 / 5) 1 5 = Inl TypeError"
    using absent_score_aborts [of 0 "[(Some 1, - 1), (None, 0), (Some 1, 1)]" "3 / 5" 1 5]
    by simp
  have "\<exists>e. correlate (\<lambda>w. Inr (replicate 30 0)) (\<lambda>p. Inr (replicate 170 0)) 500 ''fp''
        [''fp/a.fpcalc''] = Inl e
      \<and> ((\<forall>q \<in> set [''fp/a.fpcalc'']. \<not> isl ((\<lambda>p. Inr (replicate 170 0) :: string + fingerprint) q))
           \<longrightarrow> e = TypeError)"
    using absent_score_aborts [where w = 0 and duration = 500
        and cf = "\<lambda>w. Inr (replicate 30 0)" and gf = "\<lambda>p. Inr (replicate 170 0)"
        and src = "replicate 30 0" and ref = "replicate 170 0" and p = "''fp/a.fpcalc''"
        and fps = "[''fp/a.fpcalc'']" and dir = "''fp''"
        and corr = "[Some 1, Some 1, Some 1, Some 1, None, None]"]
      short_window_example
    by (simp add: r2 s min_overlap_def sample_time_def)
  then have "correlate (\<lambda>w. Inr (replicate 30 0)) (\<lambda>p. Inr (replicate 170 0)) 500 ''fp''
        [''fp/a.fpcalc''] = Inl TypeError" by auto
  with r s i short_window_example show ?thesis by simp
qed

lemma get_max_corr_present:
  assumes "vs \<noteq> []"
  shows "\<exists>r. get_max_corr (map Some vs) = Inr (r, - 150 + int r) \<and> r < length vs
     \<and> (\<forall>w \<in> set vs. w \<le> vs ! r) \<and> (\<forall>j < r. vs ! j < vs ! r)"
  using max_index_present [OF assms]
  by (auto simp: get_max_corr_def span_global_def step_global_def)

text \<open>
  C4. On a non-empty list of present scores \<open>get_max_corr\<close> returns the first index of the
  largest score, but it computes the offset from the module's globals \<open>span = 150\<close> and
  \<open>step = 1\<close>, not from the span and step of the sweep (\<open>get_max_corr_present\<close>). For the
  sweep of span 2 and step 2 over the fingerprint 0, 1, \<dots>, 23 against itself, the offsets
  are \<open>-2, 0, 2\<close> and the largest score is at index 1, that is at offset 0; \<open>get_max_corr\<close>
  returns the offset \<open>-149\<close>.
\<close>

theorem get_max_corr_offset_not_of_sweep:
  "compare (map int [0..<24]) (map int [0..<24]) 2 2
     = Inr [Some (333 / 352), Some 1, Some (333 / 352)]
   \<and> arange (- 2) (2 + 1) 2 = Inr [- 2, 0, 2]
   \<and> get_max_corr [Some (333 / 352), Some 1, Some (333 / 352)] = Inr (1, - 149)"
  by code_simp

text \<open>
  C6. For a window and a reference, the span of the sweep is
  \<open>min span (min (len source) (len reference) - 1)\<close>, which is less than the shorter length;
  the pair is skipped when that span is below \<open>min_overlap\<close> and is compared with that span
  otherwise. So \<open>compare\<close> never raises its span exception there, and \<open>correlate\<close> never
  ends in an \<open>Exception\<close>.
\<close>

theorem scan_span_clamped:
  "span_to_use_of src ref = min span_global (min (int (length src)) (int (length ref)) - 1)
   \<and> span_to_use_of src ref < min (int (length src)) (int (length ref))
   \<and> (gf p = Inr ref \<and> span_to_use_of src ref < min_overlap \<longrightarrow>
        references_loop gf dir w src (p # ps) found = references_loop gf dir w src ps found)
   \<and> (gf p = Inr ref \<and> ref \<noteq> [] \<and> src \<noteq> [] \<and> \<not> span_to_use_of src ref < min_overlap \<longrightarrow>
        references_loop gf dir w src (p # ps) found =
          (case match_pair dir p w src ref (span_to_use_of src ref) found of
             Inl e \<Rightarrow> Inl e
           | Inr found' \<Rightarrow> references_loop gf dir w src ps found'))
   \<and> (\<forall>msg. compare src ref (span_to_use_of src ref) 10 \<noteq> Inl (Exception msg))
   \<and> (\<forall>msg. correlate cf gf duration dir fps \<noteq> Inl (Exception msg))"
proof (intro conjI impI allI)
  show "span_to_use_of src ref = min span_global (min (int (length src)) (int (length ref)) - 1)"
    by (simp add: span_to_use_of_def)
  show "span_to_use_of src ref < min (int (length src)) (int (length ref))"
    by (rule span_to_use_less)
  show "references_loop gf dir w src (p # ps) found = references_loop gf dir w src ps found"
    if "gf p = Inr ref \<and> span_to_use_of src ref < min_overlap"
    using that references_loop_step [where gf = gf and q = p and ref = ref, of dir w src ps found]
    by simp
  show "references_loop gf dir w src (p # ps) found =
          (case match_pair dir p w src ref (span_to_use_of src ref) found of
             Inl e \<Rightarrow> Inl e
           | Inr found' \<Rightarrow> references_loop gf dir w src ps found')"
    if "gf p = Inr ref \<and> ref \<noteq> [] \<and> src \<noteq> [] \<and> \<not> span_to_use_of src ref < min_overlap"
    using that references_loop_step [where gf = gf and q = p and ref = ref, of dir w src ps found]
    by simp
  show "compare src ref (span_to_use_of src ref) 10 \<noteq> Inl (Exception msg)" for msg
    using span_to_use_less [of src ref] by (intro compare_no_exception) simp
  show "correlate cf gf duration dir fps \<noteq> Inl (Exception msg)" for msg
  proof
    assume "correlate cf gf duration dir fps = Inl (Exception msg)"
    then have "windows_loop cf gf dir fps (py_range 0 (duration - sample_time + 1) 10) []
        = Inl (Exception msg)" by (simp add: correlate_def)
    from windows_loop_error [OF this] show False by auto
  qed
qed


text \<open>A window and a reference of 21 frames each: the span is 20.\<close>

lemma short_pair_example:
  "match_pair ''fp'' ''fp/a.fpcalc'' 0 (replicate 21 0) (replicate 21 0) 20 [] = Inl TypeError"
  by code_simp

theorem scan_span_clamped_witness:
  "span_to_use_of [0, 0, 0] [1, 2] = 1
   \<and> span_to_use_of [0, 0, 0] [1, 2] < min_overlap
   \<and> references_loop (\<lambda>p. Inr [1, 2]) ''fp'' 0 [0, 0, 0] [''fp/a.fpcalc''] [] = Inr []
   \<and> span_to_use_of (replicate 21 0) (replicate 21 0) = 20
   \<and> \<not> span_to_use_of (replicate 21 0) (replicate 21 0) < min_overlap
   \<and> references_loop (\<lambda>p. Inr (replicate 21 0)) ''fp'' 0 (replicate 21 0) [''fp/a.fpcalc''] []
       = Inl TypeError"
proof -
  have s1: "span_to_use_of [0, 0, 0] [1, 2] = 1"
    by (simp add: span_to_use_of_def span_global_def)
  have s2: "span_to_use_of (replicate 21 0) (replicate 21 0) = 20"
    by (simp add: span_to_use_of_def span_global_def)
  have a: "references_loop (\<lambda>p. Inr [1, 2]) ''fp'' 0 [0, 0, 0] [''fp/a.fpcalc''] [] = Inr []"
    using scan_span_clamped [where gf = "\<lambda>p. Inr [1, 2]" and p = "''fp/a.fpcalc''"
        and ref = "[1, 2]" and src = "[0, 0, 0]" and dir = "''fp''" and w = 0 and ps = "[]"
        and found = "[]"]
    by (simp add: s1 min_overlap_def)
  have b: "references_loop (\<lambda>p. Inr (replicate 21 0)) ''fp'' 0 (replicate 21 0)
        [''fp/a.fpcalc''] [] = Inl TypeError"
    using scan_span_clamped [where gf = "\<lambda>p. Inr (replicate 21 0)" and p = "''fp/a.fpcalc''"
        and ref = "replicate 21 0" and src = "replicate 21 0" and dir = "''fp''" and w = 0
        and ps = "[]" and found = "[]"] short_pair_example
    by (simp add: s2 min_overlap_def)
  from s1 s2 a b show ?thesis by (simp add: min_overlap_def)
qed

text \<open>
  C9. A window whose fingerprint cannot be computed is skipped: the loop over the windows
  returns what it returns without that window, the scan is the scan of the windows whose
  fingerprint can be computed, and no candidate of the output has the offset of a failed
  window as its timestamp.
\<close>

theorem scan_skips_failed_window:
  "(cf w = Inl msg \<longrightarrow>
      windows_loop cf gf dir fps (before @ w # after) found
        = windows_loop cf gf dir fps (before @ after) found)
   \<and> correlate cf gf duration dir fps
        = windows_loop cf gf dir fps
            (filter (\<lambda>w. \<not> isl (cf w)) (py_range 0 (duration - sample_time + 1) 10)) []
   \<and> (cf w = Inl msg \<and> correlate cf gf duration dir fps = Inr found' \<longrightarrow>
        (\<forall>t \<in> set found'. snd (snd t) \<noteq> w))"
proof (intro conjI impI)
  assume f: "cf w = Inl msg"
  then have "filter (\<lambda>w. \<not> isl (cf w)) (before @ w # after)
      = filter (\<lambda>w. \<not> isl (cf w)) (before @ after)" by simp
  then show "windows_loop cf gf dir fps (before @ w # after) found
        = windows_loop cf gf dir fps (before @ after) found"
    using windows_loop_filter [of cf gf dir fps "before @ w # after" found]
      windows_loop_filter [of cf gf dir fps "before @ after" found]
    by simp
next
  show "correlate cf gf duration dir fps
        = windows_loop cf gf dir fps
            (filter (\<lambda>w. \<not> isl (cf w)) (py_range 0 (duration - sample_time + 1) 10)) []"
    unfolding correlate_def by (rule windows_loop_filter)
next
  assume h: "cf w = Inl msg \<and> correlate cf gf duration dir fps = Inr found'"
  then have "windows_loop cf gf dir fps (py_range 0 (duration - sample_time + 1) 10) []
      = Inr found'" by (simp add: correlate_def)
  from windows_loop_emits [OF this] have
    e: "\<forall>t \<in> set found'. \<exists>v \<in> set (py_range 0 (duration - sample_time + 1) 10).
         \<exists>src. cf v = Inr src \<and> (\<exists>p \<in> set fps. \<exists>ref. gf p = Inr ref \<and> emits dir p v src ref t)"
    by simp
  show "\<forall>t \<in> set found'. snd (snd t) \<noteq> w"
  proof
    fix t assume "t \<in> set found'"
    with e obtain v src p ref where "cf v = Inr src" "emits dir p v src ref t" by blast
    with h show "snd (snd t) \<noteq> w" by (auto simp: emits_def)
  qed
qed

theorem scan_skips_failed_window_witness:
  "(\<lambda>w. if w = (0::int) then Inl ''ffmpeg failed'' else Inr (replicate 170 (0::int))) 0
      = Inl ''ffmpeg failed''
   \<and> py_range 0 (510 - sample_time + 1) 10 = [0, 10]
   \<and> correlate (\<lambda>w. if w = 0 then Inl ''ffmpeg failed'' else Inr (replicate 170 0))
        (\<lambda>p. Inr (replicate 170 0)) 510 ''fp'' [''fp/a.fpcalc'']
      = Inr [(''a'', 100, 10)]
   \<and> windows_loop (\<lambda>w. if w = 0 then Inl ''ffmpeg failed'' else Inr (replicate 170 0))
        (\<lambda>p. Inr (replicate 170 0)) ''fp'' [''fp/a.fpcalc''] [10] []
      = Inr [(''a'', 100, 10)]
   \<and> snd (snd (''a'', 100 :: rat, 10 :: int)) \<noteq> 0"
proof -
  let ?cf = "\<lambda>w. if w = (0::int) then Inl ''ffmpeg failed'' else Inr (replicate 170 (0::int))"
  let ?gf = "\<lambda>p :: string. Inr (replicate 170 (0::int)) :: string + fingerprint"
  have r: "py_range 0 (510 - sample_time + 1) 10 = [0, 10]"
    by code_simp
  have f: "?cf 0 = Inl ''ffmpeg failed''"
    by simp
  have c: "correlate ?cf ?gf 510 ''fp'' [''fp/a.fpcalc''] = Inr [(''a'', 100, 10)]"
    by (rule scan_example)
  then have c': "windows_loop ?cf ?gf ''fp'' [''fp/a.fpcalc''] [0, 10] [] = Inr [(''a'', 100, 10)]"
    unfolding correlate_def r .
  note t = scan_skips_failed_window [of ?cf 0 "''ffmpeg failed''" ?gf "''fp''" "[''fp/a.fpcalc'']"
      "[]" "[10]" "[]" 510 "[(''a'', 100, 10)]"]
  from t have "?cf 0 = Inl ''ffmpeg failed'' \<longrightarrow>
      windows_loop ?cf ?gf ''fp'' [''fp/a.fpcalc''] ([] @ 0 # [10]) []
        = windows_loop ?cf ?gf ''fp'' [''fp/a.fpcalc''] ([] @ [10]) []"
    by (rule conjunct1)
  from this f have "windows_loop ?cf ?gf ''fp'' [''fp/a.fpcalc''] ([] @ 0 # [10]) []
        = windows_loop ?cf ?gf ''fp'' [''fp/a.fpcalc''] ([] @ [10]) []"
    by (rule mp)
  then have "windows_loop ?cf ?gf ''fp'' [''fp/a.fpcalc''] [0, 10] []
        = windows_loop ?cf ?gf ''fp'' [''fp/a.fpcalc''] [10] []"
    by (simp only: append_Nil)
  with c' have e: "windows_loop ?cf ?gf ''fp'' [''fp/a.fpcalc''] [10] [] = Inr [(''a'', 100, 10)]"
    by (simp only:)
  from t [THEN conjunct2, THEN conjunct2] conjI [OF f c]
  have "\<forall>t \<in> set [(''a'', 100 :: rat, 10 :: int)]. snd (snd t) \<noteq> 0"
    by (rule mp)
  then have l: "snd (snd (''a'', 100 :: rat, 10 :: int)) \<noteq> 0"
    by simp
  show ?thesis
    using f r c e l by (intro conjI) assumption+
qed

text \<open>
  C10. Every candidate that \<open>correlate\<close> returns comes from a window offset of the scan and
  a reference, whose profile has no absent entry: its name is that of the reference, its
  confidence is a hundred times the largest score of the profile and is at least
  \<open>0.60 * 100 = 60\<close>, and its timestamp is the window offset.
\<close>

theorem scan_confidence:
  "correlate cf gf duration dir fps = Inr found
   \<and> (name, confidence, timestamp) \<in> set found \<longrightarrow>
     (\<exists>p \<in> set fps. \<exists>src ref corr.
        timestamp \<in> set (py_range 0 (duration - sample_time + 1) 10)
        \<and> cf timestamp = Inr src \<and> gf p = Inr ref
        \<and> compare src ref (span_to_use_of src ref) 10 = Inr corr
        \<and> corr \<noteq> [] \<and> None \<notin> set corr
        \<and> name = song_name dir p
        \<and> confidence = Max (the ` set corr) * 100
        \<and> 3 / 5 * 100 \<le> confidence \<and> 60 \<le> confidence)"
proof
  assume h: "correlate cf gf duration dir fps = Inr found
      \<and> (name, confidence, timestamp) \<in> set found"
  then have "windows_loop cf gf dir fps (py_range 0 (duration - sample_time + 1) 10) []
      = Inr found" by (simp add: correlate_def)
  from windows_loop_emits [OF this] h obtain v src p ref where
    v: "v \<in> set (py_range 0 (duration - sample_time + 1) 10)" "cf v = Inr src"
      "p \<in> set fps" "gf p = Inr ref" "emits dir p v src ref (name, confidence, timestamp)"
    by auto
  from v(5) obtain corr where
    c: "compare src ref (span_to_use_of src ref) 10 = Inr corr" "corr \<noteq> []" "None \<notin> set corr"
      "3 / 5 \<le> Max (the ` set corr)" "name = song_name dir p"
      "confidence = Max (the ` set corr) * 100" "timestamp = v"
    by (auto simp: emits_def)
  from c(4) c(6) have "3 / 5 * 100 \<le> confidence" "60 \<le> confidence" by simp_all
  with v c show "\<exists>p \<in> set fps. \<exists>src ref corr.
        timestamp \<in> set (py_range 0 (duration - sample_time + 1) 10)
        \<and> cf timestamp = Inr src \<and> gf p = Inr ref
        \<and> compare src ref (span_to_use_of src ref) 10 = Inr corr
        \<and> corr \<noteq> [] \<and> None \<notin> set corr
        \<and> name = song_name dir p
        \<and> confidence = Max (the ` set corr) * 100
        \<and> 3 / 5 * 100 \<le> confidence \<and> 60 \<le> confidence"
    by blast
qed

theorem scan_confidence_witness:
  "correlate (\<lambda>w. if w = 0 then Inl ''ffmpeg failed'' else Inr (replicate 170 0))
        (\<lambda>p. Inr (replicate 170 0)) 510 ''fp'' [''fp/a.fpcalc'']
      = Inr [(''a'', 100, 10)]
   \<and> (''a'', 100 :: rat, 10 :: int) \<in> set [(''a'', 100, 10)]
   \<and> (\<exists>corr. compare (replicate 170 0) (replicate 170 0)
             (span_to_use_of (replicate 170 0) (replicate 170 0)) 10 = Inr corr
         \<and> corr \<noteq> [] \<and> None \<notin> set corr
         \<and> (100 :: rat) = Max (the ` set corr) * 100)
   \<and> (60 :: rat) \<le> 100"
proof -
  let ?cf = "\<lambda>w. if w = (0::int) then Inl ''ffmpeg failed'' else Inr (replicate 170 (0::int))"
  let ?gf = "\<lambda>p :: string. Inr (replicate 170 (0::int)) :: string + fingerprint"
  have c: "correlate ?cf ?gf 510 ''fp'' [''fp/a.fpcalc''] = Inr [(''a'', 100, 10)]"
    by (rule scan_example)
  have m: "(''a'', 100 :: rat, 10 :: int) \<in> set [(''a'', 100, 10)]"
    by simp
  note t = scan_confidence [of ?cf ?gf 510 "''fp''" "[''fp/a.fpcalc'']" "[(''a'', 100, 10)]"
      "''a''" 100 10, THEN mp, OF conjI [OF c m]]
  from t obtain p :: string and src ref corr where
    k: "?cf 10 = Inr src" "?gf p = Inr ref"
      "compare src ref (span_to_use_of src ref) 10 = Inr corr" "corr \<noteq> []" "None \<notin> set corr"
      "(100 :: rat) = Max (the ` set corr) * 100"
    by blast
  from k(1) have s: "src = replicate 170 0" by simp
  from k(2) have r: "ref = replicate 170 0" by simp
  from k(3-6) have "\<exists>corr. compare (replicate 170 0) (replicate 170 0)
             (span_to_use_of (replicate 170 0) (replicate 170 0)) 10 = Inr corr
         \<and> corr \<noteq> [] \<and> None \<notin> set corr
         \<and> (100 :: rat) = Max (the ` set corr) * 100"
    unfolding s r by blast
  moreover have "(60 :: rat) \<le> 100" by simp
  ultimately show ?thesis using c m by (intro conjI) assumption+
qed

end
